theory Spec2Isabelle
  imports Main "HOL-Library.Word" "HOL-Library.Signed_Division" "HOL-Library.Log_Nat"
begin

unbundle bit_operations_syntax

section \<open>Go runtime conventions\<close>

text \<open>
  A run-time panic of the Go program is a value of the model. Integer remainder
  \<^verbatim>\<open>a % b\<close> truncates towards zero and panics when the divisor is zero.
\<close>

datatype panic = DivideByZero | IndexOutOfRange | NilDereference

definition go_rem :: "int \<Rightarrow> int \<Rightarrow> panic + int" where
  "go_rem a b = (if b = 0 then Inl DivideByZero else Inr (a smod b))"

text \<open>
  An \<^verbatim>\<open>int64\<close> (and \<^verbatim>\<open>int\<close>, on the 64-bit platforms) is modelled by the integer it
  denotes; the result of an arithmetic operation is brought back into the range
  \<open>-2^63 ..< 2^63\<close> by \<open>wrap64\<close>, as two's complement arithmetic does.
\<close>

definition wrap64 :: "int \<Rightarrow> int" where
  "wrap64 x = (x + 9223372036854775808) mod 18446744073709551616 - 9223372036854775808"

text \<open>\<^verbatim>\<open>strings.Contains(s, substr)\<close>: \<open>substr\<close> occurs in \<open>s\<close> as a contiguous run of bytes.\<close>

fun Contains :: "string \<Rightarrow> string \<Rightarrow> bool" where
  "Contains [] substr = (substr = [])"
| "Contains (c # s) substr = (take (length substr) (c # s) = substr \<or> Contains s substr)"


section \<open>The image ring cache (dic/cmd/main.go)\<close>

subsection \<open>The liveness probe\<close>

text \<open>
  \<^verbatim>\<open>fastClient.Head(link)\<close> either fails (\<open>None\<close>) or yields a response, of which
  \<^verbatim>\<open>discard\<close> reads the status code and \<^verbatim>\<open>Header.Get("content-type")\<close> (the empty
  string when the header is absent). The network is a parameter of the model: it
  gives the answer to a HEAD request for every link.
\<close>

record response =
  StatusCode :: int
  ContentType :: string

type_synonym network = "string \<Rightarrow> response option"

definition discard :: "network \<Rightarrow> string \<Rightarrow> bool" where
  "discard net link =
     (case net link of
        None \<Rightarrow> True
      | Some resp \<Rightarrow>
          if StatusCode resp \<ge> 400 then True
          else \<not> Contains (ContentType resp) ''image'')"

subsection \<open>Rings\<close>

text \<open>
  Of \<^verbatim>\<open>google.ISR\<close> the ring only reads \<^verbatim>\<open>Link\<close>. The ring holds its entries by
  pointer and \<^verbatim>\<open>next\<close> writes \<^verbatim>\<open>valid\<close> through that pointer: in the model the
  entry is replaced in the list. The field \<^verbatim>\<open>image\<close> is named \<open>image_isr\<close>, and
  \<^verbatim>\<open>all\<close> is \<open>all_ti\<close>. The items that a search returns are taken to be
  non-\<^verbatim>\<open>nil\<close>, as the JSON decoder leaves them.
\<close>

record ISR =
  Link :: string
  Mime :: string

record touchedImage =
  image_isr :: ISR
  checked :: bool
  valid :: bool

record imageRing =
  all_ti :: "touchedImage list"
  index :: int

text \<open>
  The body of the loop of \<^verbatim>\<open>imageRing.next\<close> on one entry: an entry that is not
  \<^verbatim>\<open>checked\<close> is probed and its \<^verbatim>\<open>valid\<close> flag overwritten. No statement of the
  source assigns \<^verbatim>\<open>checked\<close>. \<open>probes\<close> is the list of HEAD requests this sends.
\<close>

definition touch :: "network \<Rightarrow> touchedImage \<Rightarrow> touchedImage" where
  "touch net ti =
     (if \<not> checked ti then ti\<lparr>valid := \<not> discard net (Link (image_isr ti))\<rparr> else ti)"

definition probes :: "touchedImage \<Rightarrow> string list" where
  "probes ti = (if \<not> checked ti then [Link (image_isr ti)] else [])"

text \<open>
  The loop
  \<^verbatim>\<open>for i := ir.index; i < len(ir.all); i = (i + 1) % (len(ir.all) - 1) { ... }\<close>
  with the entries \<open>al\<close>, the loop variable \<open>i\<close> and the log \<open>lg\<close> of HEAD requests sent
  so far. It returns the entries, the log and the position found (\<open>None\<close> when the loop
  ends with \<^verbatim>\<open>found == false\<close>), or a panic. The loop may run forever: the result
  \<open>None\<close> of the partial function is the run that never returns.
\<close>

partial_function (option) next_loop ::
  "network \<Rightarrow> touchedImage list \<Rightarrow> int \<Rightarrow> string list
     \<Rightarrow> (panic + (touchedImage list \<times> string list \<times> int option)) option" where
  "next_loop net al i lg =
     (if \<not> i < int (length al) then Some (Inr (al, lg, None))
      else if i < 0 then Some (Inl IndexOutOfRange)
      else if valid (touch net (al ! nat i))
        then Some (Inr (al[nat i := touch net (al ! nat i)], lg @ probes (al ! nat i), Some i))
      else (case go_rem (i + 1) (int (length al) - 1) of
              Inl p \<Rightarrow> Some (Inl p)
            | Inr i' \<Rightarrow>
                next_loop net (al[nat i := touch net (al ! nat i)]) i' (lg @ probes (al ! nat i))))"

text \<open>
  \<^verbatim>\<open>imageRing.next\<close>: the result is the image returned (\<open>None\<close> for \<^verbatim>\<open>nil\<close>), the
  ring and the log afterwards.
\<close>

definition imageRing_next ::
  "network \<Rightarrow> imageRing \<Rightarrow> string list \<Rightarrow> (panic + (ISR option \<times> imageRing \<times> string list)) option" where
  "imageRing_next net ir lg =
     (if length (all_ti ir) = 0 then Some (Inr (None, ir, lg))
      else
        (case next_loop net (all_ti ir) (index ir) lg of
           None \<Rightarrow> None
         | Some (Inl p) \<Rightarrow> Some (Inl p)
         | Some (Inr (al, lg', None)) \<Rightarrow> Some (Inr (None, ir\<lparr>all_ti := al\<rparr>, lg'))
         | Some (Inr (al, lg', Some i)) \<Rightarrow>
             (case go_rem (i + 1) (int (length al) - 1) of
                Inl p \<Rightarrow> Some (Inl p)
              | Inr i' \<Rightarrow>
                  Some (Inr (Some (image_isr (al ! nat i)), ir\<lparr>all_ti := al, index := i'\<rparr>, lg')))))"

subsection \<open>The cache\<close>

text \<open>
  \<^verbatim>\<open>ringCache.m\<close> is a map from the query to its ring; every operation runs under
  the mutex, so the operations are sequential state transformers.
\<close>

type_synonym ringCache = "string \<rightharpoonup> imageRing"

definition newRingCache :: ringCache where
  "newRingCache = Map.empty"

definition ringCache_next ::
  "network \<Rightarrow> ringCache \<Rightarrow> string \<Rightarrow> string list
     \<Rightarrow> (panic + (ISR option \<times> ringCache \<times> string list)) option" where
  "ringCache_next net c k lg =
     (case c k of
        None \<Rightarrow> Some (Inr (None, c, lg))
      | Some ring \<Rightarrow>
          (case imageRing_next net ring lg of
             None \<Rightarrow> None
           | Some (Inl p) \<Rightarrow> Some (Inl p)
           | Some (Inr (None, ring', lg')) \<Rightarrow> Some (Inr (None, c(k := None), lg'))
           | Some (Inr (Some im, ring', lg')) \<Rightarrow> Some (Inr (Some im, c(k \<mapsto> ring'), lg'))))"

definition ringCache_set :: "ringCache \<Rightarrow> string \<Rightarrow> ISR list \<Rightarrow> ringCache" where
  "ringCache_set c k results =
     c(k \<mapsto> \<lparr>all_ti = map (\<lambda>v. \<lparr>image_isr = v, checked = False, valid = False\<rparr>) results,
              index = 0\<rparr>)"


section \<open>The image annotation pipeline (dic/cmd/main.go)\<close>

subsection \<open>One request\<close>

text \<open>
  Of \<^verbatim>\<open>ImageRequest\<close> the fields \<^verbatim>\<open>c\<close>, \<^verbatim>\<open>rec\<close> and \<^verbatim>\<open>err\<close> are \<open>req_c\<close>, \<open>req_rec\<close>
  and \<open>req_err\<close>. \<^verbatim>\<open>SearchImages\<close> is a parameter: for a query it gives the items
  found, or its error.
\<close>

datatype request_error =
    ColumnOutOfRange int nat
  | SearchFailed string
  | NoResults
  | CacheInconsistency

record ImageRequest =
  req_c :: int
  req_rec :: "string list"
  req_err :: "request_error option"

type_synonym search = "string \<Rightarrow> string + ISR list"

text \<open>
  \<^verbatim>\<open>ImageRequest.Run\<close>, on the cache and the log of HEAD requests. It returns the
  request as the run leaves it, or panics, or does not return when \<^verbatim>\<open>next\<close> does
  not.
\<close>

definition Run ::
  "network \<Rightarrow> search \<Rightarrow> ImageRequest \<Rightarrow> ringCache \<Rightarrow> string list
     \<Rightarrow> (panic + (ImageRequest \<times> ringCache \<times> string list)) option" where
  "Run net srch r cache lg =
     (if req_c r \<ge> int (length (req_rec r))
        then Some (Inr (r\<lparr>req_err := Some (ColumnOutOfRange (req_c r) (length (req_rec r)))\<rparr>,
                        cache, lg))
      else if req_c r < 0 then Some (Inl IndexOutOfRange)
      else
        (case ringCache_next net cache (req_rec r ! nat (req_c r)) lg of
           None \<Rightarrow> None
         | Some (Inl p) \<Rightarrow> Some (Inl p)
         | Some (Inr (Some im, cache1, lg1)) \<Rightarrow>
             Some (Inr (r\<lparr>req_rec := req_rec r @ [Link im]\<rparr>, cache1, lg1))
         | Some (Inr (None, cache1, lg1)) \<Rightarrow>
             (case srch (req_rec r ! nat (req_c r)) of
                Inl e \<Rightarrow> Some (Inr (r\<lparr>req_err := Some (SearchFailed e)\<rparr>, cache1, lg1))
              | Inr items \<Rightarrow>
                  if length items = 0
                    then Some (Inr (r\<lparr>req_err := Some NoResults, req_rec := req_rec r @ [[]]\<rparr>,
                                    cache1, lg1))
                  else
                    (case ringCache_next net
                            (ringCache_set cache1 (req_rec r ! nat (req_c r)) items)
                            (req_rec r ! nat (req_c r)) lg1 of
                       None \<Rightarrow> None
                     | Some (Inl p) \<Rightarrow> Some (Inl p)
                     | Some (Inr (None, cache2, lg2)) \<Rightarrow>
                         Some (Inr (r\<lparr>req_err := Some CacheInconsistency,
                                      req_rec := req_rec r @ [[]]\<rparr>, cache2, lg2))
                     | Some (Inr (Some im, cache2, lg2)) \<Rightarrow>
                         Some (Inr (r\<lparr>req_rec := req_rec r @ [Link im]\<rparr>, cache2, lg2))))))"

subsection \<open>The writer\<close>

text \<open>
  \<^verbatim>\<open>enqueueImageRequest\<close> writes to the standard output through a CSV writer and logs
  to the standard error. Whether a \<^verbatim>\<open>Write\<close> fails is a parameter: a predicate of the
  records written so far and of the record to write. \<open>errc\<close> tells that the writer
  has reported a failed write and returned.
\<close>

record sink =
  stdout :: "string list list"
  stderr :: "request_error list"
  errc :: bool

type_synonym write_fails = "string list list \<Rightarrow> string list \<Rightarrow> bool"

text \<open>The body of the loop \<^verbatim>\<open>for recw := range rx\<close>, once \<^verbatim>\<open>recw.Wait()\<close> has returned.\<close>

definition enqueue_body :: "write_fails \<Rightarrow> ImageRequest \<Rightarrow> sink \<Rightarrow> sink" where
  "enqueue_body wfail recw out =
     (case req_err recw of
        Some e \<Rightarrow> out\<lparr>stderr := stderr out @ [e]\<rparr>
      | None \<Rightarrow>
          if wfail (stdout out) (req_rec recw) then out\<lparr>errc := True\<rparr>
          else out\<lparr>stdout := stdout out @ [req_rec recw]\<rparr>)"

text \<open>The loop on the requests that the channel delivers, each of them finished.\<close>

fun enqueueImageRequest :: "write_fails \<Rightarrow> ImageRequest list \<Rightarrow> sink \<Rightarrow> sink" where
  "enqueueImageRequest wfail [] out = out"
| "enqueueImageRequest wfail (recw # rest) out =
     (if errc (enqueue_body wfail recw out) then enqueue_body wfail recw out
      else enqueueImageRequest wfail rest (enqueue_body wfail recw out))"

subsection \<open>The dispatcher, the workers and the writer\<close>

text \<open>
  \<^verbatim>\<open>handleSSearch\<close> reads the records one by one; for each it sends a request on the
  unbuffered channel \<^verbatim>\<open>tx\<close>, takes a slot of the semaphore and starts a worker that
  runs the request and then sends on the request's unbuffered channel \<^verbatim>\<open>done\<close>. The
  writer receives a request from \<^verbatim>\<open>tx\<close>, waits on its \<^verbatim>\<open>done\<close> and runs the body of
  its loop. The state of the three parties:
  \<^item> \<open>unread\<close>: the records not yet read, \<open>next_pos\<close>: the position in the input of the
    first of them, \<open>reading\<close>: the dispatcher is still in its loop;
  \<^item> \<open>handed\<close>: the position of the request sent on \<^verbatim>\<open>tx\<close> whose worker is not started;
  \<^item> \<open>workers\<close>: the positions of the requests that are running, \<open>finished\<close>: the
    requests that have run and wait to send on \<^verbatim>\<open>done\<close> (both hold a slot);
  \<^item> \<open>writer\<close>: what the writer does, \<open>out\<close>: the output;
  \<^item> \<open>emitted\<close>: for each record of the standard output, the position in the input of
    the request it was written for.
\<close>

definition maxcc :: nat where
  "maxcc = 10"

datatype writer_state = Receiving | Waiting nat | Returned

record pipeline =
  unread :: "string list list"
  next_pos :: nat
  reading :: bool
  handed :: "nat option"
  workers :: "nat list"
  finished :: "(nat \<times> ImageRequest) list"
  writer :: writer_state
  out :: sink
  emitted :: "nat list"

definition start :: "string list list \<Rightarrow> pipeline" where
  "start records =
     \<lparr>unread = records, next_pos = 0, reading = True, handed = None, workers = [],
      finished = [], writer = Receiving,
      out = \<lparr>stdout = [], stderr = [], errc = False\<rparr>, emitted = []\<rparr>"

text \<open>
  The steps of the parties; the scheduler picks one at a time, and a step that cannot
  be taken leaves the state as it is.
  \<^item> \<open>Send\<close>: the dispatcher reads a record and sends its request on \<^verbatim>\<open>tx\<close>; the
    channel has no buffer, so the writer receives it in the same step;
  \<^item> \<open>Spawn\<close>: the dispatcher takes a slot and starts the worker;
  \<^item> \<open>Finish p r\<close>: the worker of position \<open>p\<close> returns from \<^verbatim>\<open>Run\<close>, leaving the
    request as \<open>r\<close> (any outcome of the lookup);
  \<^item> \<open>Collect\<close>: the request the writer waits for sends on \<^verbatim>\<open>done\<close>, and the writer
    runs the body of its loop;
  \<^item> \<open>Stop\<close>: the dispatcher leaves its loop (end of input, cancellation, a read
    error or an error of the writer).
\<close>

datatype action = Send | Spawn | Finish nat ImageRequest | Collect | Stop

fun exec :: "write_fails \<Rightarrow> action \<Rightarrow> pipeline \<Rightarrow> pipeline" where
  "exec wfail Send st =
     (if reading st \<and> handed st = None \<and> unread st \<noteq> [] \<and> writer st = Receiving
      then st\<lparr>unread := tl (unread st), next_pos := Suc (next_pos st),
              handed := Some (next_pos st), writer := Waiting (next_pos st)\<rparr>
      else st)"
| "exec wfail Spawn st =
     (case handed st of
        None \<Rightarrow> st
      | Some p \<Rightarrow>
          if length (workers st) + length (finished st) < maxcc
          then st\<lparr>handed := None, workers := workers st @ [p]\<rparr>
          else st)"
| "exec wfail (Finish p r) st =
     (if p \<in> set (workers st)
      then st\<lparr>workers := removeAll p (workers st), finished := finished st @ [(p, r)]\<rparr>
      else st)"
| "exec wfail Collect st =
     (case writer st of
        Waiting p \<Rightarrow>
          (case map_of (finished st) p of
             None \<Rightarrow> st
           | Some r \<Rightarrow>
               st\<lparr>finished := filter (\<lambda>x. fst x \<noteq> p) (finished st),
                  writer := (if errc (enqueue_body wfail r (out st)) then Returned else Receiving),
                  out := enqueue_body wfail r (out st),
                  emitted := (if req_err r = None \<and> \<not> wfail (stdout (out st)) (req_rec r)
                              then emitted st @ [p] else emitted st)\<rparr>)
      | _ \<Rightarrow> st)"
| "exec wfail Stop st = st\<lparr>reading := False\<rparr>"

fun run_pipeline :: "write_fails \<Rightarrow> action list \<Rightarrow> pipeline \<Rightarrow> pipeline" where
  "run_pipeline wfail [] st = st"
| "run_pipeline wfail (a # as) st = run_pipeline wfail as (exec wfail a st)"


section \<open>The streaming transcription engine (package google of sgtr)\<close>

subsection \<open>Records\<close>

text \<open>
  \<^verbatim>\<open>time.Duration\<close> is an \<^verbatim>\<open>int64\<close> count of nanoseconds; its arithmetic wraps.
  The messages of the recognition service are those of \<^verbatim>\<open>speechpb\<close>; the two time
  stamps of a word are pointers to messages and may be \<^verbatim>\<open>nil\<close>. The transcript
  records are those of \<^verbatim>\<open>sgenc\<close>: \<^verbatim>\<open>StrTrRec\<close> embeds \<^verbatim>\<open>TrRec\<close>.
\<close>

type_synonym Duration = int

record pb_Duration =
  Seconds :: int
  Nanos :: int

record WordInfo =
  StartTime :: "pb_Duration option"
  EndTime :: "pb_Duration option"
  Word :: string

record SpeechRecognitionAlternative =
  Transcript :: string
  alt_Confidence :: real
  Words :: "WordInfo list"

record StreamingRecognitionResult =
  Alternatives :: "SpeechRecognitionAlternative list"
  res_IsFinal :: bool

record TrRec =
  Start :: Duration
  End :: Duration
  TextRaw :: string

record StrTrRec = TrRec +
  IsFinal :: bool
  Confidence :: real

datatype go_error =
    RemoteError string
  | ContextCanceled
  | ContextDeadlineExceeded
  | OpenStreamError go_error
  | SendConfigError go_error
  | SendAudioError go_error
  | CloseSendError go_error
  | SessionRxClosed "go_error option"
  | SessionTxClosed "go_error option"
  | FatalError go_error

subsection \<open>Mapping recognition results to records\<close>

text \<open>\<^verbatim>\<open>mapDuration\<close> reads \<^verbatim>\<open>d.Seconds\<close> through the pointer it is given.\<close>

definition mapDuration :: "pb_Duration option \<Rightarrow> panic + Duration" where
  "mapDuration d =
     (case d of
        None \<Rightarrow> Inl NilDereference
      | Some d' \<Rightarrow> Inr (wrap64 (Seconds d' * 1000 * 1000 * 1000 + Nanos d')))"

text \<open>The loop over \<^verbatim>\<open>alt.Words\<close> of the batch mapper, with its accumulator.\<close>

fun mapSpeechResults_loop :: "TrRec list \<Rightarrow> WordInfo list \<Rightarrow> panic + TrRec list" where
  "mapSpeechResults_loop acc [] = Inr acc"
| "mapSpeechResults_loop acc (v # vs) =
     (if Word v = [] then mapSpeechResults_loop acc vs
      else
        (case mapDuration (StartTime v) of
           Inl p \<Rightarrow> Inl p
         | Inr st \<Rightarrow>
             (case mapDuration (EndTime v) of
                Inl p \<Rightarrow> Inl p
              | Inr en \<Rightarrow>
                  mapSpeechResults_loop (acc @ [\<lparr>Start = st, End = en, TextRaw = Word v\<rparr>]) vs)))"

definition mapSpeechResults :: "SpeechRecognitionAlternative list \<Rightarrow> panic + TrRec list" where
  "mapSpeechResults alts =
     (if length alts = 0 then Inr []
      else mapSpeechResults_loop [] (Words (hd alts)))"

text \<open>
  The streaming mapper indexes \<^verbatim>\<open>r.Alternatives[0]\<close> with no test of the length.
  Its loop fills \<^verbatim>\<open>recs[i]\<close> for each word in turn.
\<close>

fun mapStreamSpeechResult_loop ::
  "bool \<Rightarrow> real \<Rightarrow> StrTrRec list \<Rightarrow> WordInfo list \<Rightarrow> panic + StrTrRec list" where
  "mapStreamSpeechResult_loop fin conf recs [] = Inr recs"
| "mapStreamSpeechResult_loop fin conf recs (w # ws) =
     (case mapDuration (StartTime w) of
        Inl p \<Rightarrow> Inl p
      | Inr st \<Rightarrow>
          (case mapDuration (EndTime w) of
             Inl p \<Rightarrow> Inl p
           | Inr en \<Rightarrow>
               mapStreamSpeechResult_loop fin conf
                 (recs @ [\<lparr>Start = st, End = en, TextRaw = Word w,
                           IsFinal = fin, Confidence = conf\<rparr>]) ws))"

definition mapStreamSpeechResult :: "StreamingRecognitionResult \<Rightarrow> panic + StrTrRec list" where
  "mapStreamSpeechResult r =
     (case Alternatives r of
        [] \<Rightarrow> Inl IndexOutOfRange
      | alt # _ \<Rightarrow>
          mapStreamSpeechResult_loop (res_IsFinal r) (alt_Confidence alt) [] (Words alt))"

fun mapStreamSpeechResults_loop ::
  "StrTrRec list \<Rightarrow> StreamingRecognitionResult list \<Rightarrow> panic + StrTrRec list" where
  "mapStreamSpeechResults_loop acc [] = Inr acc"
| "mapStreamSpeechResults_loop acc (r # rs) =
     (case mapStreamSpeechResult r of
        Inl p \<Rightarrow> Inl p
      | Inr recs \<Rightarrow> mapStreamSpeechResults_loop (acc @ recs) rs)"

definition mapStreamSpeechResults :: "StreamingRecognitionResult list \<Rightarrow> panic + StrTrRec list" where
  "mapStreamSpeechResults results = mapStreamSpeechResults_loop [] results"

text \<open>
  \<^verbatim>\<open>trSess.listenTr\<close>: the remote is the sequence of outcomes of \<^verbatim>\<open>Recv\<close>. The
  listener returns the records it has put on the session's channel and the error it
  stored before closing the channel, or it panics; when the remote stops answering,
  \<^verbatim>\<open>Recv\<close> blocks and the listener does not return (\<open>None\<close>).
\<close>

datatype recv = RecvError go_error | RecvResponse "StreamingRecognitionResult list"

fun listenTr :: "StrTrRec list \<Rightarrow> recv list \<Rightarrow> (panic + StrTrRec list \<times> go_error) option" where
  "listenTr sent [] = None"
| "listenTr sent (RecvError e # _) = Some (Inr (sent, e))"
| "listenTr sent (RecvResponse results # rest) =
     (case mapStreamSpeechResults results of
        Inl p \<Rightarrow> Some (Inl p)
      | Inr recs \<Rightarrow> listenTr (sent @ recs) rest)"


subsection \<open>Time-offset accounting\<close>

text \<open>
  \<^verbatim>\<open>computeTimeshiftOffset\<close> divides two \<^verbatim>\<open>float64\<close> values, prints the quotient
  with \<^verbatim>\<open>fmt.Sprintf("%fs", secs)\<close> and reads the text back with
  \<^verbatim>\<open>time.ParseDuration\<close>. A finite \<^verbatim>\<open>float64\<close> is modelled by the rational number it
  denotes, and every operation rounds its exact result to the nearest number with a
  53-bit significand, ties to the even significand (\<open>float64\<close>). The exponent range
  is not modelled: the values that occur here are 0 or of a magnitude between
  \<open>2^-15\<close> and \<open>2^64\<close>.
\<close>

definition round_half_even :: "rat \<Rightarrow> int" where
  "round_half_even r =
     (let f = \<lfloor>r\<rfloor>; d = r - of_int f
      in if d < 1 / 2 then f else if 1 / 2 < d then f + 1 else if even f then f else f + 1)"

text \<open>\<open>ilog2 x\<close> is the exponent \<open>e\<close> with \<open>2^e \<le> x < 2^(e+1)\<close>, for a positive \<open>x\<close>.\<close>

definition ilog2 :: "rat \<Rightarrow> int" where
  "ilog2 x =
     (let e = bitlen (fst (quotient_of x)) - bitlen (snd (quotient_of x))
      in if 2 powi e \<le> x then e else e - 1)"

definition float64 :: "rat \<Rightarrow> rat" where
  "float64 x =
     (if x = 0 then 0
      else let u = 2 powi (ilog2 \<bar>x\<bar> - 52)
           in sgn x * of_int (round_half_even (\<bar>x\<bar> / u)) * u)"

text \<open>The conversion \<^verbatim>\<open>int64(x)\<close> of a \<^verbatim>\<open>float64\<close> drops the fraction.\<close>

definition int64_of_float :: "rat \<Rightarrow> int" where
  "int64_of_float x = (if 0 \<le> x then \<lfloor>x\<rfloor> else \<lceil>x\<rceil>)"

text \<open>
  \<^verbatim>\<open>fmt.Sprintf("%fs", x)\<close>: the sign, the integer part in decimal, a point, six
  digits of the fraction (the exact value rounded to the nearest millionth, ties to
  even), and the letter s.
\<close>

definition digit_char :: "int \<Rightarrow> char" where
  "digit_char d = char_of (48 + d)"

function decimal :: "int \<Rightarrow> string" where
  "decimal n = (if n < 10 then [digit_char n] else decimal (n div 10) @ [digit_char (n mod 10)])"
  by pat_completeness auto
termination
  by (relation "measure nat") auto

declare decimal.simps [simp del]

definition fraction6 :: "int \<Rightarrow> string" where
  "fraction6 f = map (\<lambda>k. digit_char ((f div 10 ^ k) mod 10)) [5, 4, 3, 2, 1, 0 :: nat]"

definition Sprintf_fs :: "rat \<Rightarrow> string" where
  "Sprintf_fs x =
     (let m = round_half_even (\<bar>x\<bar> * 1000000)
      in (if x < 0 then ''-'' else []) @ decimal (m div 1000000) @ ''.'' @
         fraction6 (m mod 1000000) @ ''s'')"

text \<open>
  \<^verbatim>\<open>time.ParseDuration\<close>, as of the Go release the module names (1.13), with its
  helpers \<^verbatim>\<open>leadingInt\<close> and \<^verbatim>\<open>leadingFraction\<close> and the table \<^verbatim>\<open>unitMap\<close>. Every
  error of the parser is \<open>None\<close>: the caller only tests \<^verbatim>\<open>err != nil\<close>. The constant
  922337203685477580 is \<^verbatim>\<open>(1<<63-1)/10\<close>.
\<close>

definition is_digit :: "char \<Rightarrow> bool" where
  "is_digit c = (48 \<le> (of_char c :: int) \<and> (of_char c :: int) \<le> 57)"

fun leadingInt :: "int \<Rightarrow> string \<Rightarrow> (int \<times> string) option" where
  "leadingInt x [] = Some (x, [])"
| "leadingInt x (c # s) =
     (if \<not> is_digit c then Some (x, c # s)
      else if 922337203685477580 < x then None
      else if wrap64 (x * 10 + of_char c - 48) < 0 then None
      else leadingInt (wrap64 (x * 10 + of_char c - 48)) s)"

fun leadingFraction :: "int \<Rightarrow> rat \<Rightarrow> bool \<Rightarrow> string \<Rightarrow> int \<times> rat \<times> string" where
  "leadingFraction x scale overflow [] = (x, scale, [])"
| "leadingFraction x scale overflow (c # s) =
     (if \<not> is_digit c then (x, scale, c # s)
      else if overflow then leadingFraction x scale overflow s
      else if 922337203685477580 < x then leadingFraction x scale True s
      else if wrap64 (x * 10 + of_char c - 48) < 0 then leadingFraction x scale True s
      else leadingFraction (wrap64 (x * 10 + of_char c - 48)) (float64 (scale * 10)) overflow s)"

definition unitMap :: "string \<Rightarrow> int option" where
  "unitMap u =
     (if u = ''ns'' then Some 1
      else if u = ''us'' then Some 1000
      else if u = [CHR 0xC2, CHR 0xB5, CHR ''s''] then Some 1000
      else if u = [CHR 0xCE, CHR 0xBC, CHR ''s''] then Some 1000
      else if u = ''ms'' then Some 1000000
      else if u = ''s'' then Some 1000000000
      else if u = ''m'' then Some 60000000000
      else if u = ''h'' then Some 3600000000000
      else None)"

definition unit_char :: "char \<Rightarrow> bool" where
  "unit_char c = (\<not> (c = CHR ''.'' \<or> is_digit c))"

text \<open>
  One pass of the parser's loop over a non-empty text: a number, an optional fraction
  and a unit. It yields the value in nanoseconds and the text left.
\<close>

definition parse_component :: "string \<Rightarrow> (int \<times> string) option" where
  "parse_component s =
     (if \<not> (hd s = CHR ''.'' \<or> is_digit (hd s)) then None
      else
        (case leadingInt 0 s of
           None \<Rightarrow> None
         | Some (v, s1) \<Rightarrow>
             (let pre = (length s \<noteq> length s1);
                  dot = (s1 \<noteq> [] \<and> hd s1 = CHR ''.'');
                  fr = (if dot then leadingFraction 0 1 False (tl s1) else (0, 1, s1));
                  f = fst fr; scale = fst (snd fr); s2 = snd (snd fr);
                  post = (dot \<and> length (tl s1) \<noteq> length s2)
              in if \<not> pre \<and> \<not> post then None
                 else if takeWhile unit_char s2 = [] then None
                 else
                   (case unitMap (takeWhile unit_char s2) of
                      None \<Rightarrow> None
                    | Some unit \<Rightarrow>
                        if 9223372036854775807 sdiv unit < v then None
                        else
                          (let v1 = wrap64 (v * unit);
                               v2 = (if 0 < f
                                     then wrap64 (v1 + int64_of_float
                                            (float64 (float64 (of_int f) *
                                               float64 (of_int unit / scale))))
                                     else v1)
                           in if 0 < f \<and> v2 < 0 then None
                              else Some (v2, dropWhile unit_char s2))))))"

lemma leadingInt_length: "leadingInt x s = Some (v, s1) \<Longrightarrow> length s1 \<le> length s"
  by (induction x s rule: leadingInt.induct) (auto split: if_splits)

lemma leadingFraction_length: "length (snd (snd (leadingFraction x scale ov s))) \<le> length s"
  by (induction x scale ov s rule: leadingFraction.induct) (auto simp: le_SucI)

lemma parse_component_length:
  assumes "parse_component s = Some (v, rest)"
  shows "length rest < length s"
proof -
  from assms obtain v0 s1 where li: "leadingInt 0 s = Some (v0, s1)"
    by (auto simp: parse_component_def split: if_splits option.splits)
  define s2 where "s2 = snd (snd (if s1 \<noteq> [] \<and> hd s1 = CHR ''.''
    then leadingFraction 0 1 False (tl s1) else (0, 1, s1)))"
  have "length s2 \<le> length s1"
    using leadingFraction_length [of 0 1 False "tl s1"]
    by (auto simp: s2_def intro: order_trans)
  moreover have "length s1 \<le> length s" using li by (rule leadingInt_length)
  moreover from assms li have "takeWhile unit_char s2 \<noteq> []" and "rest = dropWhile unit_char s2"
    by (auto simp: parse_component_def s2_def Let_def split: if_splits option.splits)
  moreover have "length (takeWhile unit_char s2) + length (dropWhile unit_char s2) = length s2"
    by (metis length_append takeWhile_dropWhile_id)
  ultimately show ?thesis by (cases "takeWhile unit_char s2") auto
qed

function ParseDuration_loop :: "int \<Rightarrow> string \<Rightarrow> int option" where
  "ParseDuration_loop d s =
     (if s = [] then Some d
      else
        (case parse_component s of
           None \<Rightarrow> None
         | Some (v, rest) \<Rightarrow>
             if wrap64 (d + v) < 0 then None
             else ParseDuration_loop (wrap64 (d + v)) rest))"
  by pat_completeness auto
termination
  by (relation "measure (\<lambda>(d, s). length s)") (auto dest: parse_component_length)

declare ParseDuration_loop.simps [simp del]

definition ParseDuration :: "string \<Rightarrow> Duration option" where
  "ParseDuration s =
     (let neg = (s \<noteq> [] \<and> hd s = CHR ''-'');
          s1 = (if s \<noteq> [] \<and> (hd s = CHR ''-'' \<or> hd s = CHR ''+'') then tl s else s)
      in if s1 = ''0'' then Some 0
         else if s1 = [] then None
         else
           (case ParseDuration_loop 0 s1 of
              None \<Rightarrow> None
            | Some d \<Rightarrow> Some (if neg then wrap64 (- d) else d)))"

definition inSampleRate :: int where
  "inSampleRate = 16000"

definition inBitDepth :: int where
  "inBitDepth = 16"

definition inBitrate :: int where
  "inBitrate = inSampleRate * inBitDepth * 1"

definition computeTimeshiftOffset :: "int \<Rightarrow> Duration" where
  "computeTimeshiftOffset bytesSent =
     (let byteRate = float64 (float64 (of_int inBitrate) / 8)
      in if byteRate = 0 then 0
         else
           (let secs = float64 (float64 (of_int bytesSent) / byteRate)
            in if secs = 0 then 0
               else
                 (case ParseDuration (Sprintf_fs secs) of
                    None \<Rightarrow> 0
                  | Some d \<Rightarrow> d)))"

subsection \<open>The session loop\<close>

text \<open>
  Modelled from the spec: \<^verbatim>\<open>StrTrRec.ShiftTime\<close> belongs to the package \<^verbatim>\<open>sgenc\<close>,
  which is not among the sources. The spec has the engine shift the time stamps of a
  record by the current offset: adding the offset to \<^verbatim>\<open>start\<close> and \<^verbatim>\<open>end\<close>, with no
  clamping.
\<close>

definition ShiftTime :: "Duration \<Rightarrow> StrTrRec \<Rightarrow> StrTrRec" where
  "ShiftTime d v = v\<lparr>Start := wrap64 (Start v + d), End := wrap64 (End v + d)\<rparr>"

text \<open>
  Of \<^verbatim>\<open>stream\<close> the session loop reads and writes the fields below; the channel
  \<^verbatim>\<open>rx\<close> is the list of the records sent on it so far, oldest first. Of \<^verbatim>\<open>trSess\<close>
  the loop uses the remote stream \<^verbatim>\<open>sstream\<close>, which is the list of the calls made on
  it so far, and the counter \<^verbatim>\<open>bytesSent\<close>.
\<close>

record stream =
  err :: "go_error option"
  sessionTimeout :: Duration
  timeshiftOffset :: Duration
  rx :: "StrTrRec list"

datatype call = SendConfig | SendAudio "8 word list" | CloseSend

record trSess =
  sstream :: "call list"
  bytesSent :: int

text \<open>
  What the remote service does during one session: whether \<^verbatim>\<open>StreamingRecognize\<close>
  fails, whether sending the configuration fails, whether sending a buffer fails,
  whether \<^verbatim>\<open>CloseSend\<close> fails, and, for the calls the remote has received when the loop
  starts to drain the session's channel, the records that the listener still puts on
  that channel before it closes it (\<open>None\<close> when the channel is never closed: a
  remote whose send side is still open goes on waiting for audio).
\<close>

record remote =
  open_err :: "go_error option"
  config_err :: "go_error option"
  send_err :: "8 word list \<Rightarrow> go_error option"
  closeSend_err :: "go_error option"
  tail_recs :: "call list \<Rightarrow> StrTrRec list option"

text \<open>
  The \<^verbatim>\<open>select\<close> of the loop takes one event at a time: the session's context is
  done, a record arrives on the session's channel or that channel is closed (the
  listener has stored its error), a buffer arrives on \<^verbatim>\<open>tx\<close> or \<^verbatim>\<open>tx\<close> is closed
  (with the session's error as read then).
\<close>

datatype event =
    Done
  | SessRx StrTrRec
  | SessRxClosed "go_error option"
  | Tx "8 word list"
  | TxClosed "go_error option"

text \<open>
  \<^verbatim>\<open>stream.openTrSession\<close>: on failure, the calls made on the remote stream and the
  error; the session otherwise.
\<close>

definition openTrSession :: "remote \<Rightarrow> (call list \<times> go_error) + trSess" where
  "openTrSession rem =
     (case open_err rem of
        Some e \<Rightarrow> Inl ([], OpenStreamError e)
      | None \<Rightarrow>
          (case config_err rem of
             Some e \<Rightarrow> Inl ([SendConfig], SendConfigError e)
           | None \<Rightarrow> Inr \<lparr>sstream = [SendConfig], bytesSent = 0\<rparr>))"

text \<open>\<^verbatim>\<open>trSess.sendAudio\<close>: the error returned, and the session afterwards.\<close>

definition sendAudio :: "remote \<Rightarrow> trSess \<Rightarrow> 8 word list \<Rightarrow> go_error option \<times> trSess" where
  "sendAudio rem sess p =
     (case send_err rem p of
        Some e \<Rightarrow> (Some (SendAudioError e), sess\<lparr>sstream := sstream sess @ [SendAudio p]\<rparr>)
      | None \<Rightarrow>
          (None, sess\<lparr>sstream := sstream sess @ [SendAudio p],
                      bytesSent := wrap64 (bytesSent sess + int (length p))\<rparr>))"

fun txRecognitionResults :: "stream \<Rightarrow> StrTrRec list \<Rightarrow> stream" where
  "txRecognitionResults s [] = s"
| "txRecognitionResults s (v # rr) =
     txRecognitionResults (s\<lparr>rx := rx s @ [ShiftTime (timeshiftOffset s) v]\<rparr>) rr"

text \<open>The loop \<^verbatim>\<open>for rr := range sess.rx\<close> that follows \<^verbatim>\<open>CloseSend\<close>.\<close>

fun drain :: "stream \<Rightarrow> StrTrRec list \<Rightarrow> stream" where
  "drain s [] = s"
| "drain s (rr # rest) = drain (txRecognitionResults s [rr]) rest"

text \<open>
  The \<^verbatim>\<open>for { select { ... } }\<close> of \<^verbatim>\<open>sessLoop\<close>, with the error that the outer
  context reports when the loop returns (\<open>ctx_err\<close>). The call of \<^verbatim>\<open>cancel\<close> once the
  audio sent reaches the session timeout changes no variable: it makes the event
  \<open>Done\<close> available. When the events end the loop waits for ever (\<open>None\<close>), and so
  does the drain on a channel that is never closed.
\<close>

fun sessLoop_select ::
  "remote \<Rightarrow> go_error option \<Rightarrow> stream \<Rightarrow> trSess \<Rightarrow> event list
     \<Rightarrow> (go_error option \<times> stream \<times> trSess) option" where
  "sessLoop_select rem ctx_err s sess [] = None"
| "sessLoop_select rem ctx_err s sess (Done # evs) =
     (case closeSend_err rem of
        Some e \<Rightarrow>
          Some (Some (FatalError (CloseSendError e)), s,
                sess\<lparr>sstream := sstream sess @ [CloseSend]\<rparr>)
      | None \<Rightarrow>
          (case tail_recs rem (sstream sess @ [CloseSend]) of
             None \<Rightarrow> None
           | Some recs \<Rightarrow>
               Some (ctx_err, drain s recs, sess\<lparr>sstream := sstream sess @ [CloseSend]\<rparr>)))"
| "sessLoop_select rem ctx_err s sess (SessRx rr # evs) =
     sessLoop_select rem ctx_err (txRecognitionResults s [rr]) sess evs"
| "sessLoop_select rem ctx_err s sess (SessRxClosed e # evs) =
     Some (Some (SessionRxClosed e), s, sess)"
| "sessLoop_select rem ctx_err s sess (Tx p # evs) =
     (case fst (sendAudio rem sess p) of
        Some e \<Rightarrow> Some (Some e, s, snd (sendAudio rem sess p))
      | None \<Rightarrow> sessLoop_select rem ctx_err s (snd (sendAudio rem sess p)) evs)"
| "sessLoop_select rem ctx_err s sess (TxClosed e # evs) =
     Some (Some (SessionTxClosed e), s, sess)"

text \<open>
  \<^verbatim>\<open>stream.sessLoop\<close>: the session is opened, the loop runs, and the deferred function
  adds the duration of the audio sent to the offset on every return of the loop. The
  result is the error returned, the stream, and the calls made on the remote stream.
\<close>

definition sessLoop ::
  "remote \<Rightarrow> go_error option \<Rightarrow> stream \<Rightarrow> event list
     \<Rightarrow> (go_error option \<times> stream \<times> call list) option" where
  "sessLoop rem ctx_err s evs =
     (case openTrSession rem of
        Inl (calls, e) \<Rightarrow> Some (Some (FatalError e), s, calls)
      | Inr sess0 \<Rightarrow>
          (case sessLoop_select rem ctx_err s sess0 evs of
             None \<Rightarrow> None
           | Some (r, s', sess) \<Rightarrow>
               Some (r,
                     s'\<lparr>timeshiftOffset :=
                          wrap64 (timeshiftOffset s' + computeTimeshiftOffset (bytesSent sess))\<rparr>,
                     sstream sess)))"


section \<open>Properties of the image ring cache\<close>

subsection \<open>Fixtures\<close>

abbreviation isr_a :: ISR where
  "isr_a \<equiv> \<lparr>Link = ''http://a'', Mime = ''image/png''\<rparr>"

abbreviation isr_b :: ISR where
  "isr_b \<equiv> \<lparr>Link = ''http://b'', Mime = ''image/png''\<rparr>"

abbreviation fresh :: "ISR \<Rightarrow> touchedImage" where
  "fresh v \<equiv> \<lparr>image_isr = v, checked = False, valid = False\<rparr>"

abbreviation net_live :: network where
  "net_live \<equiv> (\<lambda>_. Some \<lparr>StatusCode = 200, ContentType = ''image/png''\<rparr>)"

abbreviation net_dead :: network where
  "net_dead \<equiv> (\<lambda>_. None)"

lemmas ring_eval =
  ringCache_next_def ringCache_set_def newRingCache_def imageRing_next_def
  next_loop.simps touch_def probes_def discard_def go_rem_def signed_modulo_int_def

subsection \<open>Helper lemmas\<close>

lemma Contains_iff: "Contains s substr \<longleftrightarrow> (\<exists>p q. s = p @ substr @ q)"
proof (induction s)
  case Nil
  then show ?case by auto
next
  case (Cons c s)
  show ?case
  proof
    assume "Contains (c # s) substr"
    then consider "take (length substr) (c # s) = substr" | "Contains s substr" by auto
    then show "\<exists>p q. c # s = p @ substr @ q"
    proof cases
      case 1
      then have "c # s = [] @ substr @ drop (length substr) (c # s)"
        by (metis append_Nil append_take_drop_id)
      then show ?thesis by blast
    next
      case 2
      then obtain p q where "s = p @ substr @ q" using Cons.IH by blast
      then have "c # s = (c # p) @ substr @ q" by simp
      then show ?thesis by blast
    qed
  next
    assume "\<exists>p q. c # s = p @ substr @ q"
    then obtain p q where pq: "c # s = p @ substr @ q" by blast
    show "Contains (c # s) substr"
    proof (cases p)
      case Nil
      with pq have "take (length substr) (c # s) = substr" by simp
      then show ?thesis by simp
    next
      case (Cons d p')
      with pq have "s = p' @ substr @ q" by simp
      then have "Contains s substr" using Cons.IH by blast
      then show ?thesis by simp
    qed
  qed
qed

lemma touch_idem: "touch net (touch net ti) = touch net ti"
  by (simp add: touch_def)

lemma go_rem_pos: "0 \<le> a \<Longrightarrow> 0 < b \<Longrightarrow> go_rem a b = Inr (a mod b)"
  by (simp add: go_rem_def signed_modulo_int_def sgn_if)

text \<open>
  A ring of at least two entries none of which the network validates, with the loop
  variable inside the ring.
\<close>

definition all_dead :: "network \<Rightarrow> touchedImage list \<Rightarrow> int \<Rightarrow> bool" where
  "all_dead net al i =
     (2 \<le> length al \<and> 0 \<le> i \<and> i < int (length al) \<and>
      list_all (\<lambda>ti. \<not> valid (touch net ti)) al)"

lemma all_dead_step:
  assumes "all_dead net al i"
  shows "all_dead net (al[nat i := touch net (al ! nat i)]) ((i + 1) mod (int (length al) - 1))"
proof -
  from assms have n: "2 \<le> length al" and i: "0 \<le> i" "i < int (length al)"
    and d: "list_all (\<lambda>ti. \<not> valid (touch net ti)) al"
    by (simp_all add: all_dead_def)
  have pos: "0 < int (length al) - 1" using n by simp
  have "0 \<le> (i + 1) mod (int (length al) - 1)"
    using pos by simp
  moreover have "(i + 1) mod (int (length al) - 1) < int (length al)"
    using pos pos_mod_bound [of "int (length al) - 1" "i + 1"] by linarith
  moreover have "list_all (\<lambda>ti. \<not> valid (touch net ti)) (al[nat i := touch net (al ! nat i)])"
  proof -
    have lt: "nat i < length al" using i by simp
    then have "\<not> valid (touch net (al ! nat i))" using d by (simp add: list_all_length)
    then show ?thesis using d lt
      by (simp add: list_all_length nth_list_update touch_idem)
  qed
  ultimately show ?thesis using n by (simp add: all_dead_def)
qed

lemmas next_loop_induct = next_loop.raw_induct [rotated, consumes 1, case_names step]

lemma next_loop_all_dead_aux:
  "next_loop net al i lg = Some r \<Longrightarrow> \<not> all_dead net al i"
proof (induct rule: next_loop_induct)
  case (step loop net al i lg r)
  show ?case
  proof
    assume inv: "all_dead net al i"
    then have n: "2 \<le> length al" and i: "0 \<le> i" "i < int (length al)"
      and d: "list_all (\<lambda>ti. \<not> valid (touch net ti)) al"
      by (simp_all add: all_dead_def)
    have "nat i < length al" using i by simp
    then have nv: "\<not> valid (touch net (al ! nat i))" using d by (simp add: list_all_length)
    have rem: "go_rem (i + 1) (int (length al) - 1) = Inr ((i + 1) mod (int (length al) - 1))"
      using n i by (intro go_rem_pos) simp_all
    from step have
      "loop net (al[nat i := touch net (al ! nat i)]) ((i + 1) mod (int (length al) - 1))
         (lg @ probes (al ! nat i)) = Some r"
      using i nv rem by simp
    then have "\<not> all_dead net (al[nat i := touch net (al ! nat i)]) ((i + 1) mod (int (length al) - 1))"
      using step by blast
    with all_dead_step [OF inv] show False by simp
  qed
qed

text \<open>On such a ring the loop of \<^verbatim>\<open>imageRing.next\<close> never ends.\<close>

lemma next_loop_all_dead: "all_dead net al i \<Longrightarrow> next_loop net al i lg = None"
  using next_loop_all_dead_aux [of net al i lg] by (cases "next_loop net al i lg") auto

text \<open>No call of \<^verbatim>\<open>imageRing.next\<close> changes the \<^verbatim>\<open>checked\<close> flag of an entry.\<close>

lemma checked_touch: "checked (touch net ti) = checked ti"
  by (simp add: touch_def)

lemma map_checked_update:
  "map checked (al[k := touch net (al ! k)]) = map checked al"
proof (cases "k < length al")
  case True
  then have "(map checked al)[k := checked (al ! k)] = (map checked al)[k := map checked al ! k]"
    by simp
  then show ?thesis by (simp add: map_update checked_touch del: nth_map)
next
  case False
  then have "length al \<le> k" by simp
  then show ?thesis by (simp only: list_update_beyond)
qed

lemma next_loop_checked_aux:
  "next_loop net al i lg = Some r \<Longrightarrow>
     (case r of Inl p \<Rightarrow> True | Inr x \<Rightarrow> map checked (fst x) = map checked al)"
proof (induct rule: next_loop_induct)
  case (step loop net al i lg r)
  show ?case
  proof (cases "i < int (length al) \<and> \<not> i < 0 \<and> \<not> valid (touch net (al ! nat i))")
    case False
    with step(2) show ?thesis
      by (auto simp: map_checked_update split: if_splits)
  next
    case True
    show ?thesis
    proof (cases "go_rem (i + 1) (int (length al) - 1)")
      case (Inl p)
      with True step(2) show ?thesis by auto
    next
      case (Inr i')
      with True step(2) have
        "loop net (al[nat i := touch net (al ! nat i)]) i' (lg @ probes (al ! nat i)) = Some r"
        by simp
      from step(1) [OF this] show ?thesis
        by (cases r) (simp_all add: map_checked_update)
    qed
  qed
qed

lemma next_loop_checked:
  "next_loop net al i lg = Some (Inr (al', lg', found)) \<Longrightarrow> map checked al' = map checked al"
  using next_loop_checked_aux [of net al i lg "Inr (al', lg', found)"] by simp

lemma imageRing_next_checked:
  "imageRing_next net ir lg = Some (Inr (im, ir', lg')) \<Longrightarrow>
     map checked (all_ti ir') = map checked (all_ti ir)"
  by (auto simp: imageRing_next_def split: if_splits option.splits sum.splits prod.splits
      dest: next_loop_checked)

text \<open>
  What \<^verbatim>\<open>imageRing.next\<close> does on a ring of \<open>n \<ge> 2\<close> entries whose entry at the cursor
  is valid: it returns that entry and moves the cursor to \<open>(index + 1) mod (n - 1)\<close>.
\<close>

lemma imageRing_next_at_valid:
  assumes "2 \<le> length (all_ti ir)" and "0 \<le> index ir" and "index ir < int (length (all_ti ir))"
    and "valid (touch net (all_ti ir ! nat (index ir)))"
  shows "imageRing_next net ir lg =
     Some (Inr (Some (image_isr (all_ti ir ! nat (index ir))),
                ir\<lparr>all_ti := (all_ti ir)[nat (index ir) := touch net (all_ti ir ! nat (index ir))],
                   index := (index ir + 1) mod (int (length (all_ti ir)) - 1)\<rparr>,
                lg @ probes (all_ti ir ! nat (index ir))))"
proof -
  have lp: "next_loop net (all_ti ir) (index ir) lg =
      Some (Inr ((all_ti ir)[nat (index ir) := touch net (all_ti ir ! nat (index ir))],
                 lg @ probes (all_ti ir ! nat (index ir)), Some (index ir)))"
    using assms by (subst next_loop.simps) simp
  have rem: "go_rem (index ir + 1) (int (length (all_ti ir)) - 1) =
      Inr ((index ir + 1) mod (int (length (all_ti ir)) - 1))"
    using assms by (intro go_rem_pos) simp_all
  have im: "image_isr (touch net (all_ti ir ! nat (index ir))) = image_isr (all_ti ir ! nat (index ir))"
    by (simp add: touch_def)
  have ne: "all_ti ir \<noteq> []" using assms(1) by auto
  have lt: "nat (index ir) < length (all_ti ir)" using assms by simp
  show ?thesis
    using ne lt by (simp add: imageRing_next_def lp rem im)
qed


subsection \<open>Claims\<close>

text \<open>
  C1. The claim: on a ring of size n with all entries valid, two successive
  \<^verbatim>\<open>next(q)\<close> calls return the entries at positions i and (i+1) mod n. The code takes
  the remainder by n - 1: on the ring [a, b] with both links alive, the first call
  returns the entry at position 0 and leaves the cursor at 1 mod 1 = 0, and the second
  call returns the entry at position 0 again, not the entry at position 1.
\<close>

theorem next_twice_on_two_valid:
  "ringCache_next net_live (ringCache_set newRingCache ''q'' [isr_a, isr_b]) ''q'' [] =
     Some (Inr (Some isr_a,
                [''q'' \<mapsto> \<lparr>all_ti = [\<lparr>image_isr = isr_a, checked = False, valid = True\<rparr>, fresh isr_b],
                           index = 0\<rparr>],
                [''http://a''])) \<and>
   ringCache_next net_live
       [''q'' \<mapsto> \<lparr>all_ti = [\<lparr>image_isr = isr_a, checked = False, valid = True\<rparr>, fresh isr_b],
                  index = 0\<rparr>] ''q'' [''http://a''] =
     Some (Inr (Some isr_a,
                [''q'' \<mapsto> \<lparr>all_ti = [\<lparr>image_isr = isr_a, checked = False, valid = True\<rparr>, fresh isr_b],
                           index = 0\<rparr>],
                [''http://a'', ''http://a'']))"
  by (simp add: ring_eval)

text \<open>
  C2. The claim: \<^verbatim>\<open>next\<close> ends after at most one pass, and a ring without a valid
  entry is evicted and reported as a miss. On a ring of one dead entry the loop's
  post statement takes a remainder by zero and panics; on a ring of two dead entries
  the loop variable stays at 0 and the call never returns.
\<close>

theorem next_on_dead_rings:
  "ringCache_next net_dead (ringCache_set newRingCache ''q'' [isr_a]) ''q'' [] =
     Some (Inl DivideByZero) \<and>
   ringCache_next net_dead (ringCache_set newRingCache ''q'' [isr_a, isr_b]) ''q'' [] = None"
proof -
  have "all_dead net_dead [fresh isr_a, fresh isr_b] 0"
    by (simp add: all_dead_def touch_def discard_def)
  then have "next_loop net_dead [fresh isr_a, fresh isr_b] 0 [] = None"
    by (rule next_loop_all_dead)
  then have "ringCache_next net_dead (ringCache_set newRingCache ''q'' [isr_a, isr_b]) ''q'' [] = None"
    by (simp add: ringCache_next_def ringCache_set_def newRingCache_def imageRing_next_def)
  moreover have "ringCache_next net_dead (ringCache_set newRingCache ''q'' [isr_a]) ''q'' [] =
     Some (Inl DivideByZero)"
    by (simp add: ring_eval)
  ultimately show ?thesis by simp
qed

text \<open>
  C3. The claim: the first touch of an entry sets \<^verbatim>\<open>checked\<close>, and no entry is probed
  twice. The code never assigns \<^verbatim>\<open>checked\<close>: on the ring [a, b] the first
  \<^verbatim>\<open>next\<close> probes a and leaves it unchecked, and the second \<^verbatim>\<open>next\<close> probes a
  again, so that the log holds two HEAD requests for its link.
\<close>

theorem next_twice_probes_twice:
  "imageRing_next net_live \<lparr>all_ti = [fresh isr_a, fresh isr_b], index = 0\<rparr> [] =
     Some (Inr (Some isr_a,
                \<lparr>all_ti = [\<lparr>image_isr = isr_a, checked = False, valid = True\<rparr>, fresh isr_b],
                 index = 0\<rparr>,
                probes (fresh isr_a))) \<and>
   imageRing_next net_live
       \<lparr>all_ti = [\<lparr>image_isr = isr_a, checked = False, valid = True\<rparr>, fresh isr_b], index = 0\<rparr>
       (probes (fresh isr_a)) =
     Some (Inr (Some isr_a,
                \<lparr>all_ti = [\<lparr>image_isr = isr_a, checked = False, valid = True\<rparr>, fresh isr_b],
                 index = 0\<rparr>,
                [Link isr_a, Link isr_a]))"
  by (simp add: ring_eval)

text \<open>
  C8. An entry that is probed (one that is not \<^verbatim>\<open>checked\<close>) is marked invalid exactly
  when the HEAD request fails, or its status is at least 400, or its content type does
  not contain "image". At the boundaries: status 399 with an image content type is
  valid, status 400 is invalid, text/html is invalid, and image/jpeg with any status
  below 400 is valid.
\<close>

theorem touch_invalid_iff:
  assumes "\<not> checked ti"
  shows "(\<not> valid (touch net ti) \<longleftrightarrow>
            (net (Link (image_isr ti)) = None \<or>
             (\<exists>resp. net (Link (image_isr ti)) = Some resp \<and>
                (StatusCode resp \<ge> 400 \<or> \<not> (\<exists>p q. ContentType resp = p @ ''image'' @ q))))) \<and>
         (net (Link (image_isr ti)) = Some \<lparr>StatusCode = 399, ContentType = ''image/jpeg''\<rparr>
            \<longrightarrow> valid (touch net ti)) \<and>
         (net (Link (image_isr ti)) = Some \<lparr>StatusCode = 400, ContentType = ''image/jpeg''\<rparr>
            \<longrightarrow> \<not> valid (touch net ti)) \<and>
         (net (Link (image_isr ti)) = Some \<lparr>StatusCode = 200, ContentType = ''text/html''\<rparr>
            \<longrightarrow> \<not> valid (touch net ti)) \<and>
         (\<forall>s < 400. net (Link (image_isr ti)) = Some \<lparr>StatusCode = s, ContentType = ''image/jpeg''\<rparr>
            \<longrightarrow> valid (touch net ti))"
proof -
  have v: "valid (touch net ti) = (\<not> discard net (Link (image_isr ti)))"
    using assms by (simp add: touch_def)
  have "discard net (Link (image_isr ti)) \<longleftrightarrow>
            (net (Link (image_isr ti)) = None \<or>
             (\<exists>resp. net (Link (image_isr ti)) = Some resp \<and>
                (StatusCode resp \<ge> 400 \<or> \<not> (\<exists>p q. ContentType resp = p @ ''image'' @ q))))"
    by (cases "net (Link (image_isr ti))") (simp_all add: discard_def Contains_iff)
  moreover have "net (Link (image_isr ti)) = Some \<lparr>StatusCode = 399, ContentType = ''image/jpeg''\<rparr>
            \<longrightarrow> \<not> discard net (Link (image_isr ti))"
    by (simp add: discard_def)
  moreover have "net (Link (image_isr ti)) = Some \<lparr>StatusCode = 400, ContentType = ''image/jpeg''\<rparr>
            \<longrightarrow> discard net (Link (image_isr ti))"
    by (simp add: discard_def)
  moreover have "net (Link (image_isr ti)) = Some \<lparr>StatusCode = 200, ContentType = ''text/html''\<rparr>
            \<longrightarrow> discard net (Link (image_isr ti))"
    by (simp add: discard_def)
  moreover have "\<forall>s < 400. net (Link (image_isr ti)) = Some \<lparr>StatusCode = s, ContentType = ''image/jpeg''\<rparr>
            \<longrightarrow> \<not> discard net (Link (image_isr ti))"
    by (simp add: discard_def)
  ultimately show ?thesis unfolding v by blast
qed

theorem touch_invalid_iff_witness:
  "\<not> checked (fresh isr_a) \<and>
   \<not> valid (touch (\<lambda>_. Some \<lparr>StatusCode = 400, ContentType = ''image/jpeg''\<rparr>) (fresh isr_a)) \<and>
   valid (touch (\<lambda>_. Some \<lparr>StatusCode = 399, ContentType = ''image/jpeg''\<rparr>) (fresh isr_a)) \<and>
   \<not> valid (touch (\<lambda>_. Some \<lparr>StatusCode = 200, ContentType = ''text/html''\<rparr>) (fresh isr_a)) \<and>
   \<not> valid (touch net_dead (fresh isr_a))"
proof -
  have h: "\<not> checked (fresh isr_a)" by simp
  show ?thesis
    using h
      touch_invalid_iff [OF h, of "\<lambda>_. Some \<lparr>StatusCode = 400, ContentType = ''image/jpeg''\<rparr>"]
      touch_invalid_iff [OF h, of "\<lambda>_. Some \<lparr>StatusCode = 399, ContentType = ''image/jpeg''\<rparr>"]
      touch_invalid_iff [OF h, of "\<lambda>_. Some \<lparr>StatusCode = 200, ContentType = ''text/html''\<rparr>"]
      touch_invalid_iff [OF h, of net_dead]
    by simp
qed

text \<open>
  C9. \<^verbatim>\<open>set(q, [])\<close> stores an empty ring for q, and the next \<^verbatim>\<open>next(q)\<close> is a miss:
  it returns no image, sends no probe, and removes that entry, leaving a cache that has
  no entry for q.
\<close>

theorem next_after_set_empty:
  "ringCache_set c q [] q = Some \<lparr>all_ti = [], index = 0\<rparr> \<and>
   ringCache_next net (ringCache_set c q []) q lg = Some (Inr (None, c(q := None), lg)) \<and>
   (c(q := None)) q = None"
  by (simp add: ringCache_next_def ringCache_set_def imageRing_next_def)

section \<open>Properties of the transcription engine\<close>

subsection \<open>The result mappers\<close>

lemma mapStreamSpeechResults_loop_panics:
  "r \<in> set results \<Longrightarrow> Alternatives r = [] \<Longrightarrow>
     \<exists>p. mapStreamSpeechResults_loop acc results = Inl p"
proof (induction results arbitrary: acc)
  case Nil
  then show ?case by simp
next
  case (Cons x xs)
  show ?case
  proof (cases "mapStreamSpeechResult x")
    case (Inl p)
    then show ?thesis by simp
  next
    case (Inr recs)
    then have "Alternatives x \<noteq> []"
      by (auto simp: mapStreamSpeechResult_def)
    with Cons.prems have "r \<in> set xs" by auto
    then show ?thesis
      using Cons.IH [of "acc @ recs"] Cons.prems(2) Inr by simp
  qed
qed

text \<open>
  With at least one alternative, and no \<^verbatim>\<open>nil\<close> time stamp among the words of the
  first one, the streaming mapper returns one record for each word.
\<close>

lemma mapStreamSpeechResult_loop_returns:
  "list_all (\<lambda>w. StartTime w \<noteq> None \<and> EndTime w \<noteq> None) ws \<Longrightarrow>
     \<exists>recs. mapStreamSpeechResult_loop fin conf acc ws = Inr recs \<and>
            length recs = length acc + length ws"
proof (induction ws arbitrary: acc)
  case Nil
  then show ?case by simp
next
  case (Cons w ws)
  then obtain st en where "StartTime w = Some st" "EndTime w = Some en" by auto
  moreover from Cons.prems have "list_all (\<lambda>w. StartTime w \<noteq> None \<and> EndTime w \<noteq> None) ws"
    by simp
  ultimately show ?case
    using Cons.IH [of "acc @ [\<lparr>Start = wrap64 (Seconds st * 1000 * 1000 * 1000 + Nanos st),
                              End = wrap64 (Seconds en * 1000 * 1000 * 1000 + Nanos en),
                              TextRaw = Word w, IsFinal = fin, Confidence = conf\<rparr>]"]
    by (simp add: mapDuration_def)
qed

lemma mapStreamSpeechResult_returns:
  assumes "Alternatives r = alt # alts"
    and "list_all (\<lambda>w. StartTime w \<noteq> None \<and> EndTime w \<noteq> None) (Words alt)"
  shows "\<exists>recs. mapStreamSpeechResult r = Inr recs \<and> length recs = length (Words alt)"
  using mapStreamSpeechResult_loop_returns [OF assms(2), of "res_IsFinal r" "alt_Confidence alt" "[]"]
  by (simp add: mapStreamSpeechResult_def assms(1))

text \<open>
  C10. \<^verbatim>\<open>mapStreamSpeechResult\<close> returns only for a result that carries at least one
  alternative: on a result with no alternative it panics with an index out of range,
  and so does the listener of the session on a response that holds such a result (or
  it has panicked on an earlier result of that response). The batch mapper
  \<^verbatim>\<open>mapSpeechResults\<close> returns the empty list on no alternatives.
\<close>

theorem mapStreamSpeechResult_needs_alternative:
  "(Alternatives r = [] \<longrightarrow> mapStreamSpeechResult r = Inl IndexOutOfRange) \<and>
   ((\<exists>recs. mapStreamSpeechResult r = Inr recs) \<longrightarrow> Alternatives r \<noteq> []) \<and>
   (r \<in> set results \<and> Alternatives r = [] \<longrightarrow>
      (\<exists>p. listenTr sent (RecvResponse results # rest) = Some (Inl p))) \<and>
   (Alternatives r = [] \<longrightarrow>
      listenTr sent (RecvResponse [r] # rest) = Some (Inl IndexOutOfRange)) \<and>
   mapSpeechResults [] = Inr []"
proof -
  have a: "Alternatives r = [] \<longrightarrow> mapStreamSpeechResult r = Inl IndexOutOfRange"
    by (simp add: mapStreamSpeechResult_def)
  have b: "(\<exists>recs. mapStreamSpeechResult r = Inr recs) \<longrightarrow> Alternatives r \<noteq> []"
    by (auto simp: mapStreamSpeechResult_def)
  have c: "r \<in> set results \<and> Alternatives r = [] \<longrightarrow>
      (\<exists>p. listenTr sent (RecvResponse results # rest) = Some (Inl p))"
  proof
    assume h: "r \<in> set results \<and> Alternatives r = []"
    then obtain p where "mapStreamSpeechResults_loop [] results = Inl p"
      using mapStreamSpeechResults_loop_panics [of r results "[]"] by blast
    then show "\<exists>p. listenTr sent (RecvResponse results # rest) = Some (Inl p)"
      by (simp add: mapStreamSpeechResults_def)
  qed
  have d: "Alternatives r = [] \<longrightarrow>
      listenTr sent (RecvResponse [r] # rest) = Some (Inl IndexOutOfRange)"
    by (simp add: mapStreamSpeechResults_def mapStreamSpeechResult_def)
  have e: "mapSpeechResults [] = Inr []"
    by (simp add: mapSpeechResults_def)
  from a b c d e show ?thesis by blast
qed

theorem mapStreamSpeechResult_needs_alternative_witness:
  "Alternatives \<lparr>Alternatives = [], res_IsFinal = True\<rparr> = [] \<and>
   mapStreamSpeechResult \<lparr>Alternatives = [], res_IsFinal = True\<rparr> = Inl IndexOutOfRange \<and>
   listenTr [] [RecvResponse [\<lparr>Alternatives = [], res_IsFinal = True\<rparr>]] = Some (Inl IndexOutOfRange) \<and>
   mapStreamSpeechResult
     \<lparr>Alternatives = [\<lparr>Transcript = ''hi'', alt_Confidence = 0, Words =
        [\<lparr>StartTime = Some \<lparr>Seconds = 1, Nanos = 500000000\<rparr>,
          EndTime = Some \<lparr>Seconds = 2, Nanos = 0\<rparr>, Word = ''hi''\<rparr>]\<rparr>], res_IsFinal = True\<rparr> =
     Inr [\<lparr>Start = 1500000000, End = 2000000000, TextRaw = ''hi'', IsFinal = True, Confidence = 0\<rparr>] \<and>
   mapSpeechResults [] = Inr []"
  using mapStreamSpeechResult_needs_alternative
    [of "\<lparr>Alternatives = [], res_IsFinal = True\<rparr>" "[\<lparr>Alternatives = [], res_IsFinal = True\<rparr>]" "[]" "[]"]
  by (simp add: mapStreamSpeechResult_def mapDuration_def wrap64_def)


subsection \<open>Time-offset accounting\<close>

lemma round_half_even_nonneg: "0 \<le> r \<Longrightarrow> 0 \<le> round_half_even r"
  by (auto simp: round_half_even_def Let_def)

lemma float64_nonneg: "0 \<le> x \<Longrightarrow> 0 \<le> float64 x"
proof (cases "x = 0")
  case True
  then show ?thesis by (simp add: float64_def)
next
  case False
  assume "0 \<le> x"
  with False have x: "0 < x" by simp
  define u :: rat where "u = 2 powi (ilog2 \<bar>x\<bar> - 52)"
  have u: "0 < u" by (simp add: u_def)
  have "0 \<le> \<bar>x\<bar> / u" using u by simp
  then have "0 \<le> round_half_even (\<bar>x\<bar> / u)" by (rule round_half_even_nonneg)
  then have "0 \<le> (of_int (round_half_even (\<bar>x\<bar> / u)) :: rat) * u"
    using u by simp
  moreover have "float64 x = of_int (round_half_even (\<bar>x\<bar> / u)) * u"
    using x by (simp add: float64_def Let_def u_def)
  ultimately show ?thesis by simp
qed

lemma digit_char_not_minus: "0 \<le> n \<Longrightarrow> n < 10 \<Longrightarrow> digit_char n \<noteq> CHR ''-''"
proof
  assume n: "0 \<le> n" "n < 10" and eq: "digit_char n = CHR ''-''"
  then have "(of_char (char_of (48 + n)) :: int) = of_char (CHR ''-'')"
    by (simp add: digit_char_def)
  then have "(48 + n) mod 256 = 45" by (simp add: of_char_of)
  with n show False by simp
qed


lemma decimal_not_minus: "decimal n \<noteq> [] \<and> (0 \<le> n \<longrightarrow> hd (decimal n) \<noteq> CHR ''-'')"
proof (induction n rule: decimal.induct)
  case (1 n)
  show ?case
  proof (cases "n < 10")
    case True
    then have "decimal n = [digit_char n]" by (subst decimal.simps) simp
    with True show ?thesis using digit_char_not_minus [of n] by simp
  next
    case False
    with 1 have ih: "decimal (n div 10) \<noteq> []"
      "0 \<le> n div 10 \<longrightarrow> hd (decimal (n div 10)) \<noteq> CHR ''-''"
      by auto
    from False have nn: "0 \<le> n div 10" by simp
    from False have "decimal n = decimal (n div 10) @ [digit_char (n mod 10)]"
      by (subst decimal.simps) simp
    with ih nn show ?thesis by (simp add: hd_append)
  qed
qed

lemma Sprintf_fs_nonneg:
  assumes "0 \<le> x"
  shows "Sprintf_fs x \<noteq> [] \<and> hd (Sprintf_fs x) \<noteq> CHR ''-''"
proof -
  define k where "k = round_half_even (\<bar>x\<bar> * 1000000) div 1000000"
  have "0 \<le> round_half_even (\<bar>x\<bar> * 1000000)"
    by (rule round_half_even_nonneg) simp
  then have "0 \<le> k" by (simp add: k_def)
  then have d: "decimal k \<noteq> []" "hd (decimal k) \<noteq> CHR ''-''"
    using decimal_not_minus [of k] by simp_all
  have "\<exists>t. Sprintf_fs x = decimal k @ t"
    using assms by (simp add: Sprintf_fs_def Let_def k_def)
  then obtain t where "Sprintf_fs x = decimal k @ t" ..
  with d show ?thesis by (simp add: hd_append)
qed

lemma ParseDuration_loop_nonneg:
  "0 \<le> d \<Longrightarrow> ParseDuration_loop d s = Some d' \<Longrightarrow> 0 \<le> d'"
proof (induction d s rule: ParseDuration_loop.induct)
  case (1 d s)
  show ?case
  proof (cases "s = []")
    case True
    with "1.prems" show ?thesis by (simp add: ParseDuration_loop.simps)
  next
    case False
    from "1.prems"(2) False obtain v rest where pc: "parse_component s = Some (v, rest)"
      and ok: "\<not> wrap64 (d + v) < 0"
      and rec: "ParseDuration_loop (wrap64 (d + v)) rest = Some d'"
      by (subst (asm) ParseDuration_loop.simps) (auto split: option.splits if_splits)
    from ok have "0 \<le> wrap64 (d + v)" by simp
    from "1.IH" [OF False pc refl ok this rec] show ?thesis .
  qed
qed


lemma ParseDuration_nonneg:
  assumes "ParseDuration s = Some d" and "s \<noteq> []" and "hd s \<noteq> CHR ''-''"
  shows "0 \<le> d"
proof -
  define s1 where "s1 = (if s \<noteq> [] \<and> (hd s = CHR ''-'' \<or> hd s = CHR ''+'') then tl s else s)"
  have pd: "ParseDuration s =
     (if s1 = ''0'' then Some 0 else if s1 = [] then None
      else case ParseDuration_loop 0 s1 of None \<Rightarrow> None | Some d \<Rightarrow> Some d)"
    using assms(2,3) by (auto simp: ParseDuration_def s1_def Let_def split: option.splits)
  show ?thesis
  proof (cases "s1 = ''0''")
    case True
    with pd assms(1) show ?thesis by simp
  next
    case False
    with pd assms(1) have "ParseDuration_loop 0 s1 = Some d"
      by (simp split: if_splits option.splits)
    then show ?thesis using ParseDuration_loop_nonneg [of 0 s1 d] by simp
  qed
qed

lemma computeTimeshiftOffset_nonneg:
  assumes "0 \<le> b"
  shows "0 \<le> computeTimeshiftOffset b"
proof -
  define byteRate where "byteRate = float64 (float64 (of_int inBitrate) / 8)"
  define secs where "secs = float64 (float64 (of_int b) / byteRate)"
  have "0 \<le> float64 (of_int inBitrate)"
    by (rule float64_nonneg) (simp add: inBitrate_def inSampleRate_def inBitDepth_def)
  then have "0 \<le> float64 (of_int inBitrate) / 8" by simp
  then have br: "0 \<le> byteRate"
    unfolding byteRate_def by (rule float64_nonneg)
  have "0 \<le> float64 (of_int b)"
    using assms by (intro float64_nonneg) simp
  then have "0 \<le> float64 (of_int b) / byteRate"
    using br by (rule divide_nonneg_nonneg)
  then have "0 \<le> secs"
    unfolding secs_def by (rule float64_nonneg)
  then have fmt: "Sprintf_fs secs \<noteq> []" "hd (Sprintf_fs secs) \<noteq> CHR ''-''"
    using Sprintf_fs_nonneg by blast+
  have eq: "computeTimeshiftOffset b =
      (if byteRate = 0 then 0 else if secs = 0 then 0
       else case ParseDuration (Sprintf_fs secs) of None \<Rightarrow> 0 | Some d \<Rightarrow> d)"
    by (simp add: computeTimeshiftOffset_def byteRate_def secs_def Let_def)
  show ?thesis
  proof (cases "ParseDuration (Sprintf_fs secs)")
    case None
    with eq show ?thesis by simp
  next
    case (Some d)
    then have "0 \<le> d" using fmt by (rule ParseDuration_nonneg)
    with eq Some show ?thesis by simp
  qed
qed



subsection \<open>The session loop\<close>

text \<open>
  Observers for stating what a run of the loop does: the events on which the loop goes
  on; for a run of events, the records it puts on the session's channel, the value of
  \<^verbatim>\<open>bytesSent\<close> after its buffers and the calls that send them; the bytes of all the
  buffers of the events; and the value of \<^verbatim>\<open>bytesSent\<close> when the loop returns.
\<close>

definition continues :: "remote \<Rightarrow> event \<Rightarrow> bool" where
  "continues rem ev =
     (case ev of SessRx v \<Rightarrow> True | Tx p \<Rightarrow> send_err rem p = None | _ \<Rightarrow> False)"

fun received :: "event list \<Rightarrow> StrTrRec list" where
  "received [] = []"
| "received (SessRx v # evs) = v # received evs"
| "received (ev # evs) = received evs"

fun sent :: "int \<Rightarrow> event list \<Rightarrow> int" where
  "sent b [] = b"
| "sent b (Tx p # evs) = sent (wrap64 (b + int (length p))) evs"
| "sent b (ev # evs) = sent b evs"

fun sends :: "event list \<Rightarrow> call list" where
  "sends [] = []"
| "sends (Tx p # evs) = SendAudio p # sends evs"
| "sends (ev # evs) = sends evs"

fun tx_bytes :: "event list \<Rightarrow> int" where
  "tx_bytes [] = 0"
| "tx_bytes (Tx p # evs) = int (length p) + tx_bytes evs"
| "tx_bytes (ev # evs) = tx_bytes evs"

fun session_bytes :: "remote \<Rightarrow> int \<Rightarrow> event list \<Rightarrow> int" where
  "session_bytes rem b [] = b"
| "session_bytes rem b (SessRx v # evs) = session_bytes rem b evs"
| "session_bytes rem b (Tx p # evs) =
     (case send_err rem p of
        None \<Rightarrow> session_bytes rem (wrap64 (b + int (length p))) evs
      | Some e \<Rightarrow> b)"
| "session_bytes rem b (ev # evs) = b"

lemma txRecognitionResults_eq:
  "txRecognitionResults s rr = s\<lparr>rx := rx s @ map (ShiftTime (timeshiftOffset s)) rr\<rparr>"
  by (induction rr arbitrary: s) simp_all

lemma drain_eq: "drain s recs = s\<lparr>rx := rx s @ map (ShiftTime (timeshiftOffset s)) recs\<rparr>"
  by (induction recs arbitrary: s) (simp_all add: txRecognitionResults_eq)

lemma sessLoop_select_continues:
  "list_all (continues rem) pre \<Longrightarrow>
     sessLoop_select rem ctx_err s sess (pre @ evs) =
     sessLoop_select rem ctx_err
       (s\<lparr>rx := rx s @ map (ShiftTime (timeshiftOffset s)) (received pre)\<rparr>)
       (sess\<lparr>sstream := sstream sess @ sends pre, bytesSent := sent (bytesSent sess) pre\<rparr>) evs"
proof (induction pre arbitrary: s sess)
  case Nil
  then show ?case by simp
next
  case (Cons ev pre)
  then have tl: "list_all (continues rem) pre" by simp
  show ?case
  proof (cases ev)
    case (SessRx v)
    then show ?thesis
      using Cons.IH [OF tl, of "txRecognitionResults s [v]" sess]
      by (simp add: txRecognitionResults_eq)
  next
    case (Tx p)
    with Cons.prems have ok: "send_err rem p = None" by (simp add: continues_def)
    then show ?thesis
      using Cons.IH [OF tl, of s "sess\<lparr>sstream := sstream sess @ [SendAudio p],
                   bytesSent := wrap64 (bytesSent sess + int (length p))\<rparr>"] Tx
      by (simp add: sendAudio_def)
  qed (use Cons.prems in \<open>simp_all add: continues_def\<close>)
qed

lemma sessLoop_select_offset:
  "sessLoop_select rem ctx_err s sess evs = Some (r, s1, sess1) \<Longrightarrow>
     timeshiftOffset s1 = timeshiftOffset s"
proof (induction rem ctx_err s sess evs rule: sessLoop_select.induct)
  case (2 rem ctx_err s sess evs)
  then show ?case by (auto simp: drain_eq split: option.splits)
next
  case (3 rem ctx_err s sess rr evs)
  then show ?case by (simp add: txRecognitionResults_eq)
next
  case (5 rem ctx_err s sess p evs)
  then show ?case by (auto split: option.splits)
qed auto

lemma sessLoop_select_bytes:
  "sessLoop_select rem ctx_err s sess evs = Some (r, s1, sess1) \<Longrightarrow>
     bytesSent sess1 = session_bytes rem (bytesSent sess) evs"
proof (induction rem ctx_err s sess evs rule: sessLoop_select.induct)
  case (2 rem ctx_err s sess evs)
  then show ?case by (auto split: option.splits)
next
  case (5 rem ctx_err s sess p evs)
  then show ?case by (cases "send_err rem p") (auto simp: sendAudio_def)
qed auto

lemma wrap64_id: "- 9223372036854775808 \<le> x \<Longrightarrow> x \<le> 9223372036854775807 \<Longrightarrow> wrap64 x = x"
  by (simp add: wrap64_def)

lemma wrap64_lower: "- 9223372036854775808 \<le> wrap64 x"
  by (simp add: wrap64_def)

lemma wrap64_ge:
  assumes "a \<le> x" and "x \<le> 9223372036854775807"
  shows "a \<le> wrap64 x"
proof (cases "- 9223372036854775808 \<le> x")
  case True
  with assms show ?thesis by (simp add: wrap64_id)
next
  case False
  then have "x \<le> wrap64 x" using wrap64_lower [of x] by linarith
  with assms(1) show ?thesis by simp
qed

lemma tx_bytes_nonneg: "0 \<le> tx_bytes evs"
  by (induction evs rule: tx_bytes.induct) simp_all

lemma session_bytes_bounds:
  "0 \<le> b \<Longrightarrow> b + tx_bytes evs \<le> 9223372036854775807 \<Longrightarrow>
     0 \<le> session_bytes rem b evs \<and> session_bytes rem b evs \<le> b + tx_bytes evs"
proof (induction rem b evs rule: session_bytes.induct)
  case (3 rem b p evs)
  show ?case
  proof (cases "send_err rem p")
    case None
    have nn: "0 \<le> tx_bytes evs" by (rule tx_bytes_nonneg)
    have w: "wrap64 (b + int (length p)) = b + int (length p)"
      using 3(2,3) nn by (intro wrap64_id) simp_all
    have "0 \<le> session_bytes rem (b + int (length p)) evs \<and>
          session_bytes rem (b + int (length p)) evs \<le> b + int (length p) + tx_bytes evs"
      using 3(1) [OF None] 3(2,3) w by simp
    with None w show ?thesis by simp
  next
    case (Some e)
    with 3(2,3) tx_bytes_nonneg [of evs] show ?thesis by simp
  qed
qed (use tx_bytes_nonneg in \<open>simp_all add: add_increasing2\<close>)

text \<open>
  C4, amended. In a session that was opened and whose loop still runs when its
  context is done, the loop calls \<^verbatim>\<open>CloseSend\<close>. When the call succeeds, every record
  that the remote, now half-closed, still delivers before the session's channel is
  closed is put on \<^verbatim>\<open>rx\<close> shifted by the offset the stream had when the session
  began, after the records received before; only the state returned carries the new
  offset, the old one plus the duration of the bytes sent (an \<^verbatim>\<open>int64\<close> addition).
  When the call fails, the loop returns a fatal error without draining, and the offset
  is advanced all the same.
\<close>

theorem deadline_drains_then_shifts:
  assumes "open_err rem = None" and "config_err rem = None"
    and "list_all (continues rem) pre"
  shows "sessLoop rem ctx_err s (pre @ Done # rest) =
     (case closeSend_err rem of
        Some e \<Rightarrow>
          Some (Some (FatalError (CloseSendError e)),
                s\<lparr>rx := rx s @ map (ShiftTime (timeshiftOffset s)) (received pre),
                  timeshiftOffset :=
                    wrap64 (timeshiftOffset s + computeTimeshiftOffset (sent 0 pre))\<rparr>,
                SendConfig # sends pre @ [CloseSend])
      | None \<Rightarrow>
          (case tail_recs rem (SendConfig # sends pre @ [CloseSend]) of
             None \<Rightarrow> None
           | Some recs \<Rightarrow>
               Some (ctx_err,
                     s\<lparr>rx := rx s @ map (ShiftTime (timeshiftOffset s)) (received pre)
                                 @ map (ShiftTime (timeshiftOffset s)) recs,
                       timeshiftOffset :=
                         wrap64 (timeshiftOffset s + computeTimeshiftOffset (sent 0 pre))\<rparr>,
                     SendConfig # sends pre @ [CloseSend])))"
  using assms
  by (simp add: sessLoop_def openTrSession_def sessLoop_select_continues drain_eq
      split: option.splits)

text \<open>
  C5. \<^verbatim>\<open>computeTimeshiftOffset\<close> is not negative on a non-negative count of bytes, and
  the offset after a run of the session loop is at least the offset before it. The
  counter \<^verbatim>\<open>bytesSent\<close> and the offset are 64-bit integers: the statement is for the
  runs in which the buffers hold less than \<open>2^63\<close> bytes and the new offset is below
  \<open>2^63\<close> nanoseconds, some 292 years of audio.
\<close>

theorem timeshiftOffset_nondecreasing:
  assumes "sessLoop rem ctx_err s evs = Some (r, s', calls)"
    and "tx_bytes evs \<le> 9223372036854775807"
    and "timeshiftOffset s + computeTimeshiftOffset (session_bytes rem 0 evs)
           \<le> 9223372036854775807"
  shows "timeshiftOffset s \<le> timeshiftOffset s' \<and>
         0 \<le> session_bytes rem 0 evs \<and>
         (\<forall>b. 0 \<le> b \<longrightarrow> 0 \<le> computeTimeshiftOffset b)"
proof -
  have bytes: "0 \<le> session_bytes rem 0 evs"
    using session_bytes_bounds [of 0 evs rem] assms(2) by simp
  have nn: "0 \<le> computeTimeshiftOffset (session_bytes rem 0 evs)"
    using bytes by (rule computeTimeshiftOffset_nonneg)
  have "timeshiftOffset s \<le> timeshiftOffset s'"
  proof (cases "openTrSession rem")
    case (Inl x)
    with assms(1) show ?thesis
      by (cases x) (simp add: sessLoop_def)
  next
    case (Inr sess0)
    then have b0: "bytesSent sess0 = 0"
      by (auto simp: openTrSession_def split: option.splits)
    from assms(1) Inr obtain s1 sess where
      sel: "sessLoop_select rem ctx_err s sess0 evs = Some (r, s1, sess)"
      and s': "s' = s1\<lparr>timeshiftOffset :=
                 wrap64 (timeshiftOffset s1 + computeTimeshiftOffset (bytesSent sess))\<rparr>"
      by (auto simp: sessLoop_def split: option.splits)
    have off: "timeshiftOffset s1 = timeshiftOffset s"
      using sel by (rule sessLoop_select_offset)
    have bs: "bytesSent sess = session_bytes rem 0 evs"
      using sessLoop_select_bytes [OF sel] b0 by simp
    have "timeshiftOffset s \<le>
        wrap64 (timeshiftOffset s + computeTimeshiftOffset (session_bytes rem 0 evs))"
      using nn assms(3) by (intro wrap64_ge) simp_all
    with s' off bs show ?thesis by simp
  qed
  with bytes show ?thesis
    using computeTimeshiftOffset_nonneg by blast
qed

subsection \<open>Fixtures of the session loop\<close>

text \<open>
  A remote that answers every call but, maybe, \<^verbatim>\<open>CloseSend\<close>, and that closes the
  session's channel, after the records given, once it has been half-closed.
\<close>

abbreviation remote_with :: "go_error option \<Rightarrow> StrTrRec list \<Rightarrow> remote" where
  "remote_with close_err recs \<equiv>
     \<lparr>open_err = None, config_err = None, send_err = (\<lambda>p. None), closeSend_err = close_err,
      tail_recs = (\<lambda>calls. if CloseSend \<in> set calls then Some recs else None)\<rparr>"

abbreviation word_at :: "int \<Rightarrow> int \<Rightarrow> StrTrRec" where
  "word_at a b \<equiv> \<lparr>Start = a, End = b, TextRaw = ''word'', IsFinal = True, Confidence = 1\<rparr>"

abbreviation stream_at :: "int \<Rightarrow> StrTrRec list \<Rightarrow> stream" where
  "stream_at off sent_rx \<equiv>
     \<lparr>err = None, sessionTimeout = 5000000000, timeshiftOffset = off, rx = sent_rx\<rparr>"

lemma computeTimeshiftOffset_160000: "computeTimeshiftOffset 160000 = 5000000000"
  by code_simp

lemma sent_five_seconds: "sent 0 [Tx (replicate 160000 0), SessRx v] = 160000"
  by (simp add: wrap64_def)

theorem deadline_drains_then_shifts_witness:
  "open_err (remote_with None [word_at 4990000000 5000000000]) = None \<and>
   config_err (remote_with None [word_at 4990000000 5000000000]) = None \<and>
   list_all (continues (remote_with None [word_at 4990000000 5000000000]))
     [Tx (replicate 160000 0), SessRx (word_at 500000000 600000000)] \<and>
   sessLoop (remote_with None [word_at 4990000000 5000000000]) None (stream_at 10000000000 [])
     [Tx (replicate 160000 0), SessRx (word_at 500000000 600000000), Done] =
     Some (None,
           stream_at 15000000000
             [word_at 10500000000 10600000000, word_at 14990000000 15000000000],
           [SendConfig, SendAudio (replicate 160000 0), CloseSend])"
  using deadline_drains_then_shifts [of "remote_with None [word_at 4990000000 5000000000]"
      "[Tx (replicate 160000 0), SessRx (word_at 500000000 600000000)]" None
      "stream_at 10000000000 []" "[]"]
  by (simp add: continues_def ShiftTime_def sent_five_seconds computeTimeshiftOffset_160000
        wrap64_def)

text \<open>
  C4 as stated fails when \<^verbatim>\<open>CloseSend\<close> fails: the record that the remote would still
  deliver does not reach \<^verbatim>\<open>rx\<close>, and the offset moves from 10 s to 15 s.
\<close>

theorem deadline_closeSend_fails_no_drain:
  "tail_recs (remote_with (Some (RemoteError ''unavailable'')) [word_at 4990000000 5000000000])
     [SendConfig, SendAudio (replicate 160000 0), CloseSend] =
     Some [word_at 4990000000 5000000000] \<and>
   sessLoop (remote_with (Some (RemoteError ''unavailable'')) [word_at 4990000000 5000000000])
     None (stream_at 10000000000 []) [Tx (replicate 160000 0), Done] =
     Some (Some (FatalError (CloseSendError (RemoteError ''unavailable''))),
           stream_at 15000000000 [],
           [SendConfig, SendAudio (replicate 160000 0), CloseSend])"
  by (simp add: sessLoop_def openTrSession_def sendAudio_def computeTimeshiftOffset_160000
        wrap64_def)

theorem timeshiftOffset_nondecreasing_witness:
  "sessLoop (remote_with None []) None (stream_at 10000000000 []) [Tx (replicate 160000 0), Done] =
     Some (None, stream_at 15000000000 [], [SendConfig, SendAudio (replicate 160000 0), CloseSend]) \<and>
   tx_bytes [Tx (replicate 160000 0), Done] \<le> 9223372036854775807 \<and>
   timeshiftOffset (stream_at 10000000000 []) +
     computeTimeshiftOffset (session_bytes (remote_with None []) 0 [Tx (replicate 160000 0), Done])
     \<le> 9223372036854775807 \<and>
   timeshiftOffset (stream_at 10000000000 []) \<le> timeshiftOffset (stream_at 15000000000 [])"
proof -
  have run: "sessLoop (remote_with None []) None (stream_at 10000000000 [])
      [Tx (replicate 160000 0), Done] =
     Some (None, stream_at 15000000000 [], [SendConfig, SendAudio (replicate 160000 0), CloseSend])"
    by (simp add: sessLoop_def openTrSession_def sendAudio_def computeTimeshiftOffset_160000
        wrap64_def)
  have a: "tx_bytes [Tx (replicate 160000 0), Done] \<le> 9223372036854775807" by simp
  have b: "timeshiftOffset (stream_at 10000000000 []) +
     computeTimeshiftOffset (session_bytes (remote_with None []) 0 [Tx (replicate 160000 0), Done])
     \<le> 9223372036854775807"
    by (simp add: wrap64_def computeTimeshiftOffset_160000)
  from timeshiftOffset_nondecreasing [OF run a b] run a b show ?thesis by blast
qed


section \<open>Properties of the image annotation pipeline\<close>

text \<open>
  The invariant of the pipeline: the positions of the records written are increasing
  and lie below the position the writer waits for (below the next position to read,
  when it waits for none), and every record written has its position.
\<close>

definition ord_inv :: "writer_state \<Rightarrow> nat \<Rightarrow> nat list \<Rightarrow> nat \<Rightarrow> bool" where
  "ord_inv w n es k =
     (sorted_wrt (<) es \<and> length es = k \<and>
      (case w of
         Waiting p \<Rightarrow> p < n \<and> list_all (\<lambda>q. q < p) es
       | _ \<Rightarrow> list_all (\<lambda>q. q < n) es))"

definition in_order :: "pipeline \<Rightarrow> bool" where
  "in_order st = ord_inv (writer st) (next_pos st) (emitted st) (length (stdout (out st)))"

lemma in_order_start: "in_order (start records)"
  by (simp add: in_order_def ord_inv_def start_def)

lemma list_all_less_mono:
  "list_all (\<lambda>p. p < a) xs \<Longrightarrow> a \<le> b \<Longrightarrow> list_all (\<lambda>p. p < (b::nat)) xs"
  by (induction xs) auto

lemma ord_inv_Send: "ord_inv Receiving n es k \<Longrightarrow> ord_inv (Waiting n) (Suc n) es k"
  by (simp add: ord_inv_def)

lemma ord_inv_skip:
  assumes "ord_inv (Waiting p) n es k" and "w = Receiving \<or> w = Returned"
  shows "ord_inv w n es k"
proof -
  from assms(1) have "list_all (\<lambda>q. q < p) es" "p < n" "sorted_wrt (<) es" "length es = k"
    by (simp_all add: ord_inv_def)
  moreover from this have "list_all (\<lambda>q. q < n) es"
    using list_all_less_mono [of p es n] by simp
  ultimately show ?thesis using assms(2) by (auto simp: ord_inv_def)
qed

lemma ord_inv_emit:
  assumes "ord_inv (Waiting p) n es k" and "w = Receiving \<or> w = Returned"
  shows "ord_inv w n (es @ [p]) (Suc k)"
proof -
  from assms(1) have b: "list_all (\<lambda>q. q < p) es" "p < n" "sorted_wrt (<) es" "length es = k"
    by (simp_all add: ord_inv_def)
  then have "list_all (\<lambda>q. q < n) es"
    using list_all_less_mono [of p es n] by simp
  moreover have "sorted_wrt (<) (es @ [p])"
    using b by (simp add: sorted_wrt_append list_all_iff)
  ultimately show ?thesis using assms(2) b by (auto simp: ord_inv_def)
qed


lemma in_order_exec:
  assumes "in_order st"
  shows "in_order (exec wfail a st)"
proof (cases a)
  case Send
  show ?thesis
  proof (cases "reading st \<and> handed st = None \<and> unread st \<noteq> [] \<and> writer st = Receiving")
    case True
    then have "ord_inv Receiving (next_pos st) (emitted st) (length (stdout (out st)))"
      using assms by (simp add: in_order_def)
    then have "ord_inv (Waiting (next_pos st)) (Suc (next_pos st)) (emitted st) (length (stdout (out st)))"
      by (rule ord_inv_Send)
    with True Send show ?thesis by (simp add: in_order_def)
  next
    case False
    with assms Send show ?thesis by auto
  qed
next
  case Spawn
  with assms show ?thesis
    by (cases "handed st") (simp_all add: in_order_def)
next
  case (Finish p r)
  with assms show ?thesis
    by (simp add: in_order_def)
next
  case Collect
  show ?thesis
  proof (cases "writer st")
    case (Waiting p)
    show ?thesis
    proof (cases "map_of (finished st) p")
      case None
      with assms Collect Waiting show ?thesis by simp
    next
      case (Some r)
      from assms Waiting
      have inv: "ord_inv (Waiting p) (next_pos st) (emitted st) (length (stdout (out st)))"
        by (simp add: in_order_def)
      define w where "w = (if errc (enqueue_body wfail r (out st)) then Returned else Receiving)"
      have w: "w = Receiving \<or> w = Returned" by (simp add: w_def)
      show ?thesis
      proof (cases "req_err r = None \<and> \<not> wfail (stdout (out st)) (req_rec r)")
        case True
        then have "stdout (enqueue_body wfail r (out st)) = stdout (out st) @ [req_rec r]"
          by (simp add: enqueue_body_def)
        moreover have "ord_inv w (next_pos st) (emitted st @ [p]) (Suc (length (stdout (out st))))"
          using inv w by (rule ord_inv_emit)
        ultimately show ?thesis
          using True Collect Waiting Some by (simp add: in_order_def w_def)
      next
        case False
        then have "stdout (enqueue_body wfail r (out st)) = stdout (out st)"
          by (auto simp: enqueue_body_def split: option.splits)
        moreover have "ord_inv w (next_pos st) (emitted st) (length (stdout (out st)))"
          using inv w by (rule ord_inv_skip)
        ultimately show ?thesis
          using False Collect Waiting Some by (auto simp: in_order_def w_def)
      qed
    qed
  qed (use assms Collect in simp_all)
next
  case Stop
  with assms show ?thesis
    by (simp add: in_order_def)
qed

lemma in_order_run: "in_order st \<Longrightarrow> in_order (run_pipeline wfail sched st)"
  by (induction sched arbitrary: st) (simp_all add: in_order_exec)

lemma sorted_wrt_less_nth:
  assumes "sorted_wrt (<) (es :: nat list)" and "i < length es" and "j < length es"
    and "es ! i < es ! j"
  shows "i < j"
proof (rule ccontr)
  assume "\<not> i < j"
  then have "j = i \<or> j < i" by auto
  then show False
  proof
    assume "j = i" with assms(4) show False by simp
  next
    assume "j < i"
    with assms(1,2) have "es ! j < es ! i" by (simp add: sorted_wrt_nth_less)
    with assms(4) show False by simp
  qed
qed

text \<open>
  C6. Whatever the scheduler does and whatever the lookups return, the records on the
  standard output are written for increasing positions of the input: when the outputs
  of the positions p1 < p2 are both written, the one of p1 is written first.
\<close>

theorem output_in_input_order:
  "length (emitted (run_pipeline wfail sched (start records))) =
     length (stdout (out (run_pipeline wfail sched (start records)))) \<and>
   sorted_wrt (<) (emitted (run_pipeline wfail sched (start records))) \<and>
   (\<forall>i j. i < length (emitted (run_pipeline wfail sched (start records))) \<and>
          j < length (emitted (run_pipeline wfail sched (start records))) \<and>
          emitted (run_pipeline wfail sched (start records)) ! i <
            emitted (run_pipeline wfail sched (start records)) ! j \<longrightarrow> i < j)"
proof -
  have "in_order (run_pipeline wfail sched (start records))"
    using in_order_start by (rule in_order_run)
  then have "sorted_wrt (<) (emitted (run_pipeline wfail sched (start records)))"
    and "length (emitted (run_pipeline wfail sched (start records))) =
     length (stdout (out (run_pipeline wfail sched (start records))))"
    by (simp_all add: in_order_def ord_inv_def)
  then show ?thesis using sorted_wrt_less_nth by blast
qed


subsection \<open>One lookup at a time\<close>

text \<open>
  The channels \<^verbatim>\<open>tx\<close> and \<^verbatim>\<open>done\<close> have no buffer: while the writer waits for a
  request, that request is the only one sent, running or finished, and there is none
  otherwise.
\<close>

definition serial :: "pipeline \<Rightarrow> bool" where
  "serial st =
     (case writer st of
        Waiting p \<Rightarrow>
          (handed st = Some p \<and> workers st = [] \<and> finished st = []) \<or>
          (handed st = None \<and> workers st = [p] \<and> finished st = []) \<or>
          (handed st = None \<and> workers st = [] \<and> map fst (finished st) = [p])
      | _ \<Rightarrow> handed st = None \<and> workers st = [] \<and> finished st = [])"

lemma serial_start: "serial (start records)"
  by (simp add: serial_def start_def)

lemma serial_exec:
  assumes "serial st"
  shows "serial (exec wfail a st)"
proof (cases a)
  case Send
  with assms show ?thesis
    by (cases "writer st") (simp_all add: serial_def)
next
  case Spawn
  show ?thesis
  proof (cases "handed st")
    case None
    with assms Spawn show ?thesis by simp
  next
    case (Some q)
    with assms obtain p where "writer st = Waiting p" "q = p" "workers st = []" "finished st = []"
      by (cases "writer st") (auto simp: serial_def)
    with Some Spawn show ?thesis
      by (simp add: serial_def maxcc_def)
  qed
next
  case (Finish q r)
  show ?thesis
  proof (cases "q \<in> set (workers st)")
    case False
    with assms Finish show ?thesis by simp
  next
    case True
    with assms obtain p where "writer st = Waiting p" "workers st = [p]" "handed st = None"
      "finished st = []"
      by (cases "writer st") (auto simp: serial_def)
    with True Finish show ?thesis
      by (simp add: serial_def)
  qed
next
  case Collect
  show ?thesis
  proof (cases "writer st")
    case (Waiting p)
    show ?thesis
    proof (cases "map_of (finished st) p")
      case None
      with assms Collect Waiting show ?thesis by simp
    next
      case (Some r)
      then have "finished st \<noteq> []" by auto
      with assms Waiting have f: "handed st = None" "workers st = []" "map fst (finished st) = [p]"
        by (auto simp: serial_def)
      then obtain r' where "finished st = [(p, r')]"
        by (cases "finished st") auto
      with f Some Collect Waiting show ?thesis
        by (simp add: serial_def)
    qed
  qed (use assms Collect in simp_all)
next
  case Stop
  with assms show ?thesis
    by (cases "writer st") (simp_all add: serial_def)
qed

lemma serial_run: "serial st \<Longrightarrow> serial (run_pipeline wfail sched st)"
  by (induction sched arbitrary: st) (simp_all add: serial_exec)

text \<open>At most one request is in the hands of a worker at any time.\<close>

lemma one_worker_at_a_time:
  "length (workers (run_pipeline wfail sched (start records))) +
   length (finished (run_pipeline wfail sched (start records))) \<le> 1"
proof -
  have "serial (run_pipeline wfail sched (start records))"
    using serial_start by (rule serial_run)
  then show ?thesis
    by (cases "writer (run_pipeline wfail sched (start records))")
       (auto simp: serial_def dest: arg_cong [where f = length])
qed

subsection \<open>Fixtures of the pipeline\<close>

abbreviation elephant1 :: ImageRequest where
  "elephant1 \<equiv> \<lparr>req_c = 1, req_rec = [''0.5'', ''elephant'', ''http://e/1.png''], req_err = None\<rparr>"

abbreviation ant_failed :: ImageRequest where
  "ant_failed \<equiv> \<lparr>req_c = 1, req_rec = [''1.5'', ''ant'', []], req_err = Some NoResults\<rparr>"

abbreviation elephant2 :: ImageRequest where
  "elephant2 \<equiv> \<lparr>req_c = 1, req_rec = [''2.5'', ''elephant'', ''http://e/2.png''], req_err = None\<rparr>"

abbreviation never_fails :: write_fails where
  "never_fails \<equiv> (\<lambda>written r. False)"

lemma run_three_records:
  "run_pipeline never_fails
      [Send, Spawn, Finish 0 elephant1, Collect, Send, Spawn, Finish 1 ant_failed, Collect,
       Send, Spawn, Finish 2 elephant2, Collect]
      (start [[''0.5'', ''elephant''], [''1.5'', ''ant''], [''2.5'', ''elephant'']]) =
   \<lparr>unread = [], next_pos = 3, reading = True, handed = None, workers = [], finished = [],
    writer = Receiving,
    out = \<lparr>stdout = [[''0.5'', ''elephant'', ''http://e/1.png''],
                     [''2.5'', ''elephant'', ''http://e/2.png'']],
           stderr = [NoResults], errc = False\<rparr>,
    emitted = [0, 2]\<rparr>"
  by (simp add: start_def enqueue_body_def maxcc_def eval_nat_numeral)

text \<open>
  C7. A request whose lookup misses the cache and then fails in the search, or finds
  no item, ends with an error; the writer logs that error, writes nothing for the
  request (not even the record with the empty URL that the zero-result branch has
  appended) and goes on with the requests that follow.
\<close>

theorem noncritical_error_drops_record:
  assumes "0 \<le> req_c r" and "req_c r < int (length (req_rec r))"
    and "ringCache_next net cache (req_rec r ! nat (req_c r)) lg = Some (Inr (None, cache', lg'))"
    and "srch (req_rec r ! nat (req_c r)) = Inl msg \<or> srch (req_rec r ! nat (req_c r)) = Inr []"
    and "\<not> errc sink"
  shows "\<exists>r' e. Run net srch r cache lg = Some (Inr (r', cache', lg')) \<and>
           req_err r' = Some e \<and> (e = SearchFailed msg \<or> e = NoResults) \<and>
           enqueue_body wfail r' sink = sink\<lparr>stderr := stderr sink @ [e]\<rparr> \<and>
           stdout (enqueue_body wfail r' sink) = stdout sink \<and>
           enqueueImageRequest wfail (r' # rest) sink =
             enqueueImageRequest wfail rest (sink\<lparr>stderr := stderr sink @ [e]\<rparr>)"
  using assms(4)
proof
  assume f: "srch (req_rec r ! nat (req_c r)) = Inl msg"
  have "Run net srch r cache lg = Some (Inr (r\<lparr>req_err := Some (SearchFailed msg)\<rparr>, cache', lg'))"
    using assms(1,2,3) f by (simp add: Run_def)
  then show ?thesis
    using assms(5) by (simp add: enqueue_body_def)
next
  assume z: "srch (req_rec r ! nat (req_c r)) = Inr []"
  have "Run net srch r cache lg =
      Some (Inr (r\<lparr>req_err := Some NoResults, req_rec := req_rec r @ [[]]\<rparr>, cache', lg'))"
    using assms(1,2,3) z by (simp add: Run_def)
  then show ?thesis
    using assms(5) by (simp add: enqueue_body_def)
qed


theorem output_in_input_order_witness:
  "emitted (run_pipeline never_fails
      [Send, Spawn, Finish 0 elephant1, Collect, Send, Spawn, Finish 1 ant_failed, Collect,
       Send, Spawn, Finish 2 elephant2, Collect]
      (start [[''0.5'', ''elephant''], [''1.5'', ''ant''], [''2.5'', ''elephant'']])) = [0, 2] \<and>
   stdout (out (run_pipeline never_fails
      [Send, Spawn, Finish 0 elephant1, Collect, Send, Spawn, Finish 1 ant_failed, Collect,
       Send, Spawn, Finish 2 elephant2, Collect]
      (start [[''0.5'', ''elephant''], [''1.5'', ''ant''], [''2.5'', ''elephant'']]))) =
     [[''0.5'', ''elephant'', ''http://e/1.png''], [''2.5'', ''elephant'', ''http://e/2.png'']] \<and>
   sorted_wrt (<) (emitted (run_pipeline never_fails
      [Send, Spawn, Finish 0 elephant1, Collect, Send, Spawn, Finish 1 ant_failed, Collect,
       Send, Spawn, Finish 2 elephant2, Collect]
      (start [[''0.5'', ''elephant''], [''1.5'', ''ant''], [''2.5'', ''elephant'']])))"
proof -
  have "sorted_wrt (<) (emitted (run_pipeline never_fails
      [Send, Spawn, Finish 0 elephant1, Collect, Send, Spawn, Finish 1 ant_failed, Collect,
       Send, Spawn, Finish 2 elephant2, Collect]
      (start [[''0.5'', ''elephant''], [''1.5'', ''ant''], [''2.5'', ''elephant'']])))"
    using output_in_input_order [of never_fails
      "[Send, Spawn, Finish 0 elephant1, Collect, Send, Spawn, Finish 1 ant_failed, Collect,
       Send, Spawn, Finish 2 elephant2, Collect]"
      "[[''0.5'', ''elephant''], [''1.5'', ''ant''], [''2.5'', ''elephant'']]"]
    by (rule conjunct1 [OF conjunct2])
  then show ?thesis
    unfolding run_three_records by simp
qed

lemma Run_ant:
  "Run net_dead (\<lambda>q. Inr []) \<lparr>req_c = 1, req_rec = [''1.5'', ''ant''], req_err = None\<rparr>
       newRingCache [] = Some (Inr (ant_failed, newRingCache, []))"
  by (simp add: ringCache_next_def newRingCache_def Run_def)

lemma enqueue_ant_elephant:
  "enqueueImageRequest never_fails [ant_failed, elephant2] \<lparr>stdout = [], stderr = [], errc = False\<rparr> =
     \<lparr>stdout = [[''2.5'', ''elephant'', ''http://e/2.png'']], stderr = [NoResults], errc = False\<rparr>"
  by (simp add: enqueue_body_def)


theorem noncritical_error_drops_record_witness:
  "ringCache_next net_dead newRingCache ''ant'' [] = Some (Inr (None, newRingCache, [])) \<and>
   Run net_dead (\<lambda>q. Inr []) \<lparr>req_c = 1, req_rec = [''1.5'', ''ant''], req_err = None\<rparr>
       newRingCache [] = Some (Inr (ant_failed, newRingCache, [])) \<and>
   enqueueImageRequest never_fails [ant_failed, elephant2] \<lparr>stdout = [], stderr = [], errc = False\<rparr> =
     \<lparr>stdout = [[''2.5'', ''elephant'', ''http://e/2.png'']], stderr = [NoResults], errc = False\<rparr> \<and>
   (\<exists>r' e. Run net_dead (\<lambda>q. Inr []) \<lparr>req_c = 1, req_rec = [''1.5'', ''ant''], req_err = None\<rparr>
             newRingCache [] = Some (Inr (r', newRingCache, [])) \<and>
           req_err r' = Some e \<and>
           stdout (enqueue_body never_fails r' \<lparr>stdout = [], stderr = [], errc = False\<rparr>) = [])"
proof -
  let ?r = "\<lparr>req_c = 1, req_rec = [''1.5'', ''ant''], req_err = None\<rparr>"
  let ?sink = "\<lparr>stdout = [], stderr = [], errc = False\<rparr>"
  have h1: "0 \<le> req_c ?r" and h2: "req_c ?r < int (length (req_rec ?r))" by simp_all
  have miss: "ringCache_next net_dead newRingCache ''ant'' [] = Some (Inr (None, newRingCache, []))"
    by (simp add: ringCache_next_def newRingCache_def)
  then have h3: "ringCache_next net_dead newRingCache (req_rec ?r ! nat (req_c ?r)) [] =
      Some (Inr (None, newRingCache, []))" by simp
  have h4: "(\<lambda>q. Inr []) (req_rec ?r ! nat (req_c ?r)) = Inl [] \<or>
      (\<lambda>q. Inr []) (req_rec ?r ! nat (req_c ?r)) = (Inr [] :: string + ISR list)" by simp
  have h5: "\<not> errc ?sink" by simp
  from noncritical_error_drops_record [OF h1 h2 h3 h4 h5, of never_fails "[elephant2]"]
  obtain r' e where "Run net_dead (\<lambda>q. Inr []) ?r newRingCache [] = Some (Inr (r', newRingCache, []))"
    and "req_err r' = Some e"
    and "stdout (enqueue_body never_fails r' ?sink) = stdout ?sink"
    by blast
  then have "\<exists>r' e. Run net_dead (\<lambda>q. Inr []) ?r newRingCache [] = Some (Inr (r', newRingCache, [])) \<and>
           req_err r' = Some e \<and> stdout (enqueue_body never_fails r' ?sink) = []"
    by auto
  with miss Run_ant enqueue_ant_elephant show ?thesis by blast
qed

end
